theory Spec2Isabelle
  imports Main "HOL-Library.Word" "HOL-Library.Monad_Syntax"
begin

unbundle bit_operations_syntax

section \<open>Machine integers and byte order\<close>

text \<open>
  Go's \<^verbatim>\<open>uint8\<close>, \<^verbatim>\<open>uint32\<close> and \<^verbatim>\<open>uint64\<close> are words: arithmetic wraps. An \<^verbatim>\<open>int64\<close>
  (trailing distance, trailing step, timestamps) is a 64-bit word read in two's complement; the
  conversions \<^verbatim>\<open>uint64(x)\<close> and \<^verbatim>\<open>int64(x)\<close> of the source keep the bits, so they are the identity
  on the word.
\<close>

type_synonym u8 = "8 word"
type_synonym u32 = "32 word"
type_synonym u64 = "64 word"
type_synonym i64 = "64 word"

text \<open>\<^verbatim>\<open>binary.BigEndian.PutUint64\<close>, \<^verbatim>\<open>PutUint32\<close>, \<^verbatim>\<open>Uint64\<close> and \<^verbatim>\<open>Uint32\<close> of the Go library.\<close>

definition PutUint64 :: "u64 \<Rightarrow> u8 list" where
  "PutUint64 v =
     [ucast (drop_bit 56 v), ucast (drop_bit 48 v), ucast (drop_bit 40 v), ucast (drop_bit 32 v),
      ucast (drop_bit 24 v), ucast (drop_bit 16 v), ucast (drop_bit 8 v), ucast v]"

definition Uint64 :: "u8 list \<Rightarrow> u64" where
  "Uint64 b =
     ucast (b ! 7) OR push_bit 8 (ucast (b ! 6)) OR push_bit 16 (ucast (b ! 5)) OR
     push_bit 24 (ucast (b ! 4)) OR push_bit 32 (ucast (b ! 3)) OR push_bit 40 (ucast (b ! 2)) OR
     push_bit 48 (ucast (b ! 1)) OR push_bit 56 (ucast (b ! 0))"

definition PutUint32 :: "u32 \<Rightarrow> u8 list" where
  "PutUint32 v = [ucast (drop_bit 24 v), ucast (drop_bit 16 v), ucast (drop_bit 8 v), ucast v]"

definition Uint32 :: "u8 list \<Rightarrow> u32" where
  "Uint32 b =
     ucast (b ! 3) OR push_bit 8 (ucast (b ! 2)) OR push_bit 16 (ucast (b ! 1)) OR
     push_bit 24 (ucast (b ! 0))"

text \<open>The slice expression \<^verbatim>\<open>buf[i:j]\<close>.\<close>

definition subslice :: "'a list \<Rightarrow> nat \<Rightarrow> nat \<Rightarrow> 'a list" where
  "subslice buf i j = take (j - i) (drop i buf)"

section \<open>Orders\<close>

text \<open>
  \<^verbatim>\<open>OrderSide\<close>, \<^verbatim>\<open>OrderType\<close> and \<^verbatim>\<open>OrderTimeInForce\<close> are declared \<^verbatim>\<open>uint8\<close> with named
  constants; a value read from the wire can be any byte, so they stay bytes here.
\<close>

abbreviation (input) OrderSideBuy :: u8 where "OrderSideBuy \<equiv> 0"
abbreviation (input) OrderSideSell :: u8 where "OrderSideSell \<equiv> 1"

abbreviation (input) OrderTypeMarket :: u8 where "OrderTypeMarket \<equiv> 0"
abbreviation (input) OrderTypeLimit :: u8 where "OrderTypeLimit \<equiv> 1"
abbreviation (input) OrderTypeStop :: u8 where "OrderTypeStop \<equiv> 2"
abbreviation (input) OrderTypeStopLimit :: u8 where "OrderTypeStopLimit \<equiv> 3"
abbreviation (input) OrderTypeTrailingStop :: u8 where "OrderTypeTrailingStop \<equiv> 4"
abbreviation (input) OrderTypeTrailingStopLimit :: u8 where "OrderTypeTrailingStopLimit \<equiv> 5"

abbreviation (input) OrderTimeInForceGTC :: u8 where "OrderTimeInForceGTC \<equiv> 0"

abbreviation (input) MaxVisibleQuantityDefault :: u64 where "MaxVisibleQuantityDefault \<equiv> - 1"
abbreviation (input) MaxSlippage :: u64 where "MaxSlippage \<equiv> - 1"

record Order =
  ID :: u64
  SymbolID :: u32
  Type :: u8
  Side :: u8
  Price :: u64
  StopPrice :: u64
  Quantity :: u64
  ExecutedQuantity :: u64
  LeavesQuantity :: u64
  TimeInForce :: u8
  MaxVisibleQuantity :: u64
  Slippage :: u64
  TrailingDistance :: i64
  TrailingStep :: i64

section \<open>The order wire layout\<close>

definition orderWireSize :: nat where
  "orderWireSize = 87"

text \<open>
  A buffer is its bytes, and its capacity is its length, as for the buffers the callers
  make with \<^verbatim>\<open>make([]byte, n)\<close>; a slice cut shorter than its backing array is not
  modelled. \<^verbatim>\<open>marshalOrder(buf, o)\<close> overwrites the first 87 bytes of \<^verbatim>\<open>buf\<close>; on a shorter
  buffer the slice expressions run past the capacity and panic, which is \<open>None\<close>, and so
  for \<^verbatim>\<open>unmarshalOrder\<close>.
\<close>

definition marshalOrder :: "u8 list \<Rightarrow> Order \<Rightarrow> u8 list option" where
  "marshalOrder buf ord =
     (if length buf < orderWireSize then None
      else Some (PutUint64 (ID ord) @ PutUint32 (SymbolID ord) @ [Type ord] @ [Side ord] @
                 PutUint64 (Price ord) @ PutUint64 (StopPrice ord) @ PutUint64 (Quantity ord) @
                 PutUint64 (ExecutedQuantity ord) @ PutUint64 (LeavesQuantity ord) @
                 [TimeInForce ord] @ PutUint64 (MaxVisibleQuantity ord) @ PutUint64 (Slippage ord) @
                 PutUint64 (TrailingDistance ord) @ PutUint64 (TrailingStep ord) @
                 drop orderWireSize buf))"

definition unmarshalOrder :: "u8 list \<Rightarrow> Order option" where
  "unmarshalOrder buf =
     (if length buf < orderWireSize then None
      else Some \<lparr> ID = Uint64 (subslice buf 0 8),
                  SymbolID = Uint32 (subslice buf 8 12),
                  Type = buf ! 12,
                  Side = buf ! 13,
                  Price = Uint64 (subslice buf 14 22),
                  StopPrice = Uint64 (subslice buf 22 30),
                  Quantity = Uint64 (subslice buf 30 38),
                  ExecutedQuantity = Uint64 (subslice buf 38 46),
                  LeavesQuantity = Uint64 (subslice buf 46 54),
                  TimeInForce = buf ! 54,
                  MaxVisibleQuantity = Uint64 (subslice buf 55 63),
                  Slippage = Uint64 (subslice buf 63 71),
                  TrailingDistance = Uint64 (subslice buf 71 79),
                  TrailingStep = Uint64 (subslice buf 79 87) \<rparr>)"

section \<open>Byte-order lemmas\<close>

lemma Uint64_PutUint64: "Uint64 (PutUint64 v) = v"
proof (rule bit_word_eqI)
  fix n assume "n < LENGTH(64)"
  then consider "n < 8" | "8 \<le> n" "n < 16" | "16 \<le> n" "n < 24" | "24 \<le> n" "n < 32"
    | "32 \<le> n" "n < 40" | "40 \<le> n" "n < 48" | "48 \<le> n" "n < 56" | "56 \<le> n" "n < 64"
    by simp linarith
  then show "bit (Uint64 (PutUint64 v)) n = bit v n"
    by cases (auto simp add: Uint64_def PutUint64_def bit_simps)
qed

lemma Uint32_PutUint32: "Uint32 (PutUint32 v) = v"
proof (rule bit_word_eqI)
  fix n assume "n < LENGTH(32)"
  then consider "n < 8" | "8 \<le> n" "n < 16" | "16 \<le> n" "n < 24" | "24 \<le> n" "n < 32"
    by simp linarith
  then show "bit (Uint32 (PutUint32 v)) n = bit v n"
    by cases (auto simp add: Uint32_def PutUint32_def bit_simps)
qed

lemma PutUint64_Uint64_bytes:
  "PutUint64 (Uint64 [b0, b1, b2, b3, b4, b5, b6, b7]) = [b0, b1, b2, b3, b4, b5, b6, b7]"
  unfolding Uint64_def PutUint64_def
  apply simp
  apply (intro conjI; rule bit_word_eqI)
         apply (simp_all add: bit_simps)
        apply (auto dest: bit_imp_le_length)
  done

lemma PutUint32_Uint32_bytes:
  "PutUint32 (Uint32 [b0, b1, b2, b3]) = [b0, b1, b2, b3]"
  unfolding Uint32_def PutUint32_def
  apply simp
  apply (intro conjI; rule bit_word_eqI)
     apply (simp_all add: bit_simps)
    apply (auto dest: bit_imp_le_length)
  done

lemma length_8_bytes:
  "length s = 8 \<Longrightarrow> \<exists>b0 b1 b2 b3 b4 b5 b6 b7. s = [b0, b1, b2, b3, b4, b5, b6, b7]"
  by (simp add: numeral_eq_Suc length_Suc_conv) blast

lemma length_4_bytes: "length s = 4 \<Longrightarrow> \<exists>b0 b1 b2 b3. s = [b0, b1, b2, b3]"
  by (simp add: numeral_eq_Suc length_Suc_conv) blast

lemma PutUint64_Uint64: "length s = 8 \<Longrightarrow> PutUint64 (Uint64 s) = s"
  using length_8_bytes [of s] PutUint64_Uint64_bytes by auto

lemma PutUint32_Uint32: "length s = 4 \<Longrightarrow> PutUint32 (Uint32 s) = s"
  using length_4_bytes [of s] PutUint32_Uint32_bytes by auto

lemma length_PutUint64 [simp]: "length (PutUint64 v) = 8"
  by (simp add: PutUint64_def)

lemma length_PutUint32 [simp]: "length (PutUint32 v) = 4"
  by (simp add: PutUint32_def)

lemma length_slice: "j \<le> length buf \<Longrightarrow> length (subslice buf i j) = j - i"
  by (simp add: subslice_def)

lemma slice_append_next:
  "i \<le> j \<Longrightarrow> j \<le> k \<Longrightarrow> subslice buf i j @ subslice buf j k = subslice buf i k"
proof -
  assume ij: "i \<le> j" and jk: "j \<le> k"
  have "take (j - i) (drop i buf) @ take (k - j) (drop (j - i) (drop i buf)) =
        take ((j - i) + (k - j)) (drop i buf)"
    by (simp add: take_add)
  with ij jk show ?thesis
    by (simp add: subslice_def)
qed

lemma slice_single: "i < length buf \<Longrightarrow> [buf ! i] = subslice buf i (Suc i)"
  by (simp add: subslice_def take_Suc_conv_app_nth [of 0, simplified] hd_drop_conv_nth take_Suc)

lemma slice_all: "subslice buf 0 (length buf) = buf"
  by (simp add: subslice_def)

lemma unmarshalOrder_marshalOrder:
  assumes "length buf = orderWireSize"
  shows "\<exists>p. marshalOrder buf x = Some p \<and> length p = orderWireSize \<and> unmarshalOrder p = Some x"
proof -
  have "marshalOrder buf x \<noteq> None"
    using assms by (simp add: marshalOrder_def)
  then obtain p where p: "marshalOrder buf x = Some p"
    by blast
  have len: "length p = orderWireSize"
    using p assms by (auto simp add: marshalOrder_def orderWireSize_def split: if_splits)
  have "unmarshalOrder p = Some x"
    using p assms
    by (auto simp add: marshalOrder_def unmarshalOrder_def orderWireSize_def subslice_def
        Uint64_PutUint64 Uint32_PutUint32 nth_append split: if_splits)
  with p len show ?thesis
    by blast
qed

lemma marshalOrder_unmarshalOrder:
  assumes p: "length p = orderWireSize" and buf: "length buf = orderWireSize"
  shows "\<exists>x. unmarshalOrder p = Some x \<and> marshalOrder buf x = Some p"
proof -
  have l: "length p = 87"
    using p by (simp add: orderWireSize_def)
  have s8: "\<And>i. i + 8 \<le> 87 \<Longrightarrow> PutUint64 (Uint64 (subslice p i (i + 8))) = subslice p i (i + 8)"
    using l by (intro PutUint64_Uint64) (simp add: subslice_def)
  have s4: "PutUint32 (Uint32 (subslice p 8 12)) = subslice p 8 12"
    using l by (intro PutUint32_Uint32) (simp add: subslice_def)
  have b12: "subslice p 12 13 = [p ! 12]" and b13: "subslice p 13 14 = [p ! 13]"
    and b54: "subslice p 54 55 = [p ! 54]"
    using l slice_single [of 12 p] slice_single [of 13 p] slice_single [of 54 p] by simp_all
  have "subslice p 0 8 @ subslice p 8 12 @ subslice p 12 13 @ subslice p 13 14 @ subslice p 14 22 @
        subslice p 22 30 @ subslice p 30 38 @ subslice p 38 46 @ subslice p 46 54 @ subslice p 54 55 @
        subslice p 55 63 @ subslice p 63 71 @ subslice p 71 79 @ subslice p 79 87 = subslice p 0 87"
    by (simp add: slice_append_next)
  also have "\<dots> = p"
    using slice_all [of p] l by simp
  finally have cat: "subslice p 0 8 @ subslice p 8 12 @ subslice p 12 13 @ subslice p 13 14 @ subslice p 14 22 @
        subslice p 22 30 @ subslice p 30 38 @ subslice p 38 46 @ subslice p 46 54 @ subslice p 54 55 @
        subslice p 55 63 @ subslice p 63 71 @ subslice p 71 79 @ subslice p 79 87 = p" .
  show ?thesis
    using l buf s8 [of 0] s8 [of 14] s8 [of 22] s8 [of 30] s8 [of 38] s8 [of 46] s8 [of 55]
      s8 [of 63] s8 [of 71] s8 [of 79] s4 cat
    by (simp add: unmarshalOrder_def marshalOrder_def orderWireSize_def b12 b13 b54)
qed

section \<open>The wire codec is a bijection\<close>

text \<open>
  C8: decoding any 87-byte payload and encoding the result gives the same bytes back, and
  encoding any order and decoding the bytes gives the same order back, every one of the
  thirteen wire fields included (the type, side and time-in-force bytes and the two signed
  trailing fields too).
\<close>

theorem order_wire_codec_bijection:
  "(\<forall>p buf. length p = orderWireSize \<and> length buf = orderWireSize \<longrightarrow>
      (\<exists>x. unmarshalOrder p = Some x \<and> marshalOrder buf x = Some p)) \<and>
   (\<forall>x buf. length buf = orderWireSize \<longrightarrow>
      (\<exists>p. marshalOrder buf x = Some p \<and> length p = orderWireSize \<and>
           unmarshalOrder p = Some x))"
  using marshalOrder_unmarshalOrder unmarshalOrder_marshalOrder by blast

theorem order_wire_codec_bijection_witness:
  "(\<exists>x. unmarshalOrder (replicate 87 7) = Some x \<and>
        marshalOrder (replicate 87 0) x = Some (replicate 87 7)) \<and>
   (\<exists>p. marshalOrder (replicate 87 0)
          \<lparr>ID = 42, SymbolID = 1, Type = OrderTypeTrailingStopLimit, Side = OrderSideSell,
           Price = 10000, StopPrice = 9900, Quantity = 100, ExecutedQuantity = 30,
           LeavesQuantity = 70, TimeInForce = 3, MaxVisibleQuantity = MaxVisibleQuantityDefault,
           Slippage = MaxSlippage, TrailingDistance = - 250, TrailingStep = - 1\<rparr> = Some p \<and>
        length p = orderWireSize \<and>
        unmarshalOrder p =
          Some \<lparr>ID = 42, SymbolID = 1, Type = OrderTypeTrailingStopLimit, Side = OrderSideSell,
           Price = 10000, StopPrice = 9900, Quantity = 100, ExecutedQuantity = 30,
           LeavesQuantity = 70, TimeInForce = 3, MaxVisibleQuantity = MaxVisibleQuantityDefault,
           Slippage = MaxSlippage, TrailingDistance = - 250, TrailingStep = - 1\<rparr>)"
proof -
  have a: "length (replicate 87 (7::u8)) = orderWireSize \<and> length (replicate 87 (0::u8)) = orderWireSize"
    by (simp add: orderWireSize_def)
  have b: "length (replicate 87 (0::u8)) = orderWireSize"
    by (simp add: orderWireSize_def)
  from order_wire_codec_bijection a b show ?thesis
    by blast
qed

section \<open>Journal records\<close>

abbreviation (input) EventNewOrder :: u8 where "EventNewOrder \<equiv> 1"
abbreviation (input) EventCancelOrder :: u8 where "EventCancelOrder \<equiv> 2"

record MatchingEvent =
  Event_Type :: u8
  Timestamp :: i64
  Event_Order :: Order
  OrderID :: u64

text \<open>The zero value of \<^verbatim>\<open>matching.Order\<close>, which Go gives a field that is not set.\<close>

definition zero_Order :: Order where
  "zero_Order =
     \<lparr>ID = 0, SymbolID = 0, Type = 0, Side = 0, Price = 0, StopPrice = 0, Quantity = 0,
      ExecutedQuantity = 0, LeavesQuantity = 0, TimeInForce = 0, MaxVisibleQuantity = 0,
      Slippage = 0, TrailingDistance = 0, TrailingStep = 0\<rparr>"

text \<open>
  The errors of the persistence package. \<open>EOF\<close> and \<open>ErrUnexpectedEOF\<close> are the two
  sentinels of Go's \<^verbatim>\<open>io\<close>; \<open>ReadingRecordPayload e\<close> is \<^verbatim>\<open>fmt.Errorf("...: %w", e)\<close>, a new
  error value that wraps \<open>e\<close> and is not equal to it under \<^verbatim>\<open>==\<close>. \<open>RuntimePanic\<close> stands
  for a slice bound out of range.
\<close>

datatype error =
  EOF
  | ErrUnexpectedEOF
  | InvalidRecordLength u32
  | ReadingRecordPayload error
  | ShortNewOrderPayload nat
  | ShortCancelOrderPayload nat
  | UnknownEventType u8
  | RuntimePanic

definition encodeEvent :: "MatchingEvent \<Rightarrow> error + u8 list" where
  "encodeEvent e =
     (if Event_Type e = EventNewOrder then
        (case marshalOrder (replicate orderWireSize 0) (Event_Order e) of
           None \<Rightarrow> Inl RuntimePanic
         | Some bs \<Rightarrow>
             Inr (PutUint32 (of_nat (1 + 8 + orderWireSize)) @ [Event_Type e] @
                  PutUint64 (Timestamp e) @ bs))
      else if Event_Type e = EventCancelOrder then
        Inr (PutUint32 (1 + 8 + 8) @ [Event_Type e] @ PutUint64 (Timestamp e) @
             PutUint64 (OrderID e))
      else Inl (UnknownEventType (Event_Type e)))"

text \<open>
  An \<^verbatim>\<open>io.Reader\<close> over a file is the list of bytes not yet read. \<^verbatim>\<open>io.ReadFull(r, buf)\<close>
  with \<open>n = len(buf)\<close>: \<open>EOF\<close> when no byte is left, \<open>ErrUnexpectedEOF\<close> when some but
  fewer than \<open>n\<close> are (they are consumed), the \<open>n\<close> bytes otherwise.
\<close>

definition ReadFull :: "u8 list \<Rightarrow> nat \<Rightarrow> (error + u8 list) \<times> u8 list" where
  "ReadFull r n =
     (if n = 0 then (Inr [], r)
      else if r = [] then (Inl EOF, [])
      else if length r < n then (Inl ErrUnexpectedEOF, [])
      else (Inr (take n r), drop n r))"

definition decodeEvent :: "u8 list \<Rightarrow> (error + MatchingEvent) \<times> u8 list" where
  "decodeEvent r =
     (case ReadFull r 4 of
        (Inl err, r1) \<Rightarrow> (Inl err, r1)
      | (Inr lenBuf, r1) \<Rightarrow>
          let payloadLen = Uint32 lenBuf in
          if payloadLen < 9 then (Inl (InvalidRecordLength payloadLen), r1)
          else
            (case ReadFull r1 (unat payloadLen) of
               (Inl err, r2) \<Rightarrow> (Inl (ReadingRecordPayload err), r2)
             | (Inr payload, r2) \<Rightarrow>
                 let e = \<lparr>Event_Type = payload ! 0, Timestamp = Uint64 (subslice payload 1 9),
                          Event_Order = zero_Order, OrderID = 0\<rparr> in
                 if Event_Type e = EventNewOrder then
                   (if length payload < 9 + orderWireSize
                    then (Inl (ShortNewOrderPayload (length payload)), r2)
                    else (case unmarshalOrder (drop 9 payload) of
                            None \<Rightarrow> (Inl RuntimePanic, r2)
                          | Some x \<Rightarrow> (Inr (e\<lparr>Event_Order := x\<rparr>), r2)))
                 else if Event_Type e = EventCancelOrder then
                   (if length payload < 17
                    then (Inl (ShortCancelOrderPayload (length payload)), r2)
                    else (Inr (e\<lparr>OrderID := Uint64 (subslice payload 9 17)\<rparr>), r2))
                 else (Inl (UnknownEventType (Event_Type e)), r2)))"

lemma decodeEvent_consumes:
  "decodeEvent r = (Inr e, r') \<Longrightarrow> length r' < length r"
  by (auto simp add: decodeEvent_def ReadFull_def Let_def split: if_splits option.splits)

text \<open>
  The loop of \<^verbatim>\<open>ReadAll\<close>: decode records until an error; the two end-of-file sentinels end
  the loop without an error, any other error is returned with the events decoded so far.
\<close>

function readLoop :: "u8 list \<Rightarrow> MatchingEvent list \<Rightarrow> MatchingEvent list \<times> error option" where
  "readLoop r events =
     (case decodeEvent r of
        (Inl err, r') \<Rightarrow>
          if err = EOF \<or> err = ErrUnexpectedEOF then (events, None) else (events, Some err)
      | (Inr e, r') \<Rightarrow> readLoop r' (events @ [e]))"
  by pat_completeness auto
termination
  by (relation "measure (\<lambda>(r, events). length r)") (auto dest: decodeEvent_consumes [OF sym])

declare readLoop.simps [simp del]

text \<open>
  What \<^verbatim>\<open>os.Open\<close> finds at the journal path: no file, a file that cannot be opened, or
  the bytes of the file.
\<close>

datatype 'e journal_file = NotExist | OpenFails 'e | Contents "u8 list"

definition ReadAll :: "error journal_file \<Rightarrow> MatchingEvent list \<times> error option" where
  "ReadAll f =
     (case f of
        NotExist \<Rightarrow> ([], None)
      | OpenFails err \<Rightarrow> ([], Some err)
      | Contents bytes \<Rightarrow> readLoop bytes [])"

section \<open>Reading the journal back\<close>

text \<open>
  What the reader returns for an encoded event: the field the event's type does not use is
  not written, so it comes back as its zero value.
\<close>

definition decoded :: "MatchingEvent \<Rightarrow> MatchingEvent" where
  "decoded e =
     (if Event_Type e = EventNewOrder then e\<lparr>OrderID := 0\<rparr> else e\<lparr>Event_Order := zero_Order\<rparr>)"

lemma decodeEvent_encodeEvent:
  assumes "encodeEvent e = Inr record"
  shows "decodeEvent (record @ rest) = (Inr (decoded e), rest)"
proof (cases "Event_Type e = EventNewOrder")
  case True
  obtain bs where bs: "marshalOrder (replicate orderWireSize 0) (Event_Order e) = Some bs"
    "length bs = orderWireSize" "unmarshalOrder bs = Some (Event_Order e)"
    using unmarshalOrder_marshalOrder [of "replicate orderWireSize 0" "Event_Order e"] by auto
  have rec: "record = PutUint32 96 @ [1] @ PutUint64 (Timestamp e) @ bs"
    using assms True bs by (simp add: encodeEvent_def orderWireSize_def)
  show ?thesis
    using bs(2,3) True
    by (simp add: rec decodeEvent_def ReadFull_def Uint32_PutUint32 Uint64_PutUint64 subslice_def
        orderWireSize_def decoded_def Let_def)
next
  case False
  then have t: "Event_Type e = EventCancelOrder"
    using assms by (auto simp add: encodeEvent_def split: if_splits)
  have rec: "record = PutUint32 17 @ [2] @ PutUint64 (Timestamp e) @ PutUint64 (OrderID e)"
    using assms t by (simp add: encodeEvent_def)
  show ?thesis
    using t
    by (simp add: rec decodeEvent_def ReadFull_def Uint32_PutUint32 Uint64_PutUint64 subslice_def
        decoded_def Let_def)
qed


lemma readLoop_acc:
  "readLoop r acc = (case readLoop r [] of (es, err) \<Rightarrow> (acc @ es, err))"
proof (induction "length r" arbitrary: r acc rule: less_induct)
  case less
  show ?case
  proof (cases "decodeEvent r")
    case (Pair res r')
    show ?thesis
    proof (cases res)
      case (Inl err)
      with Pair show ?thesis
        by (subst readLoop.simps, subst (2) readLoop.simps) simp
    next
      case (Inr e)
      have shorter: "length r' < length r"
        using Pair Inr by (auto dest: decodeEvent_consumes)
      have a: "readLoop r' (acc @ [e]) =
               (case readLoop r' [] of (es, err) \<Rightarrow> ((acc @ [e]) @ es, err))"
        using less [OF shorter] .
      have b: "readLoop r' [e] = (case readLoop r' [] of (es, err) \<Rightarrow> ([e] @ es, err))"
        using less [OF shorter] .
      show ?thesis
        using Pair Inr a b
        by (subst readLoop.simps, subst (2) readLoop.simps) (simp split: prod.splits)
    qed
  qed
qed

lemma readLoop_records:
  assumes "list_all2 (\<lambda>e r. encodeEvent e = Inr r) evs recs"
  shows "readLoop (concat recs @ t) acc =
         (case readLoop t [] of (es, err) \<Rightarrow> (acc @ map decoded evs @ es, err))"
  using assms
proof (induction evs recs arbitrary: acc rule: list_all2_induct)
  case Nil
  show ?case
    using readLoop_acc [of t acc] by simp
next
  case (Cons e evs r recs)
  have "readLoop (concat (r # recs) @ t) acc = readLoop (concat recs @ t) (acc @ [decoded e])"
    using decodeEvent_encodeEvent [OF Cons.hyps(1), of "concat recs @ t"]
    by (subst readLoop.simps) simp
  then show ?case
    using Cons.IH [of "acc @ [decoded e]"] by (simp split: prod.splits)
qed

lemma PutUint32_not_Nil [simp]: "PutUint32 n \<noteq> []"
  by (simp add: PutUint32_def)

lemma unat_ge_9: "(9::u32) \<le> n \<Longrightarrow> 9 \<le> unat n"
  by (simp add: word_le_nat_alt)

lemma readLoop_short_prefix:
  "length t < 4 \<Longrightarrow> readLoop t [] = ([], None)"
  by (subst readLoop.simps) (simp add: decodeEvent_def ReadFull_def)

lemma readLoop_invalid_length:
  "n < 9 \<Longrightarrow> readLoop (PutUint32 n @ rest) [] = ([], Some (InvalidRecordLength n))"
  by (subst readLoop.simps) (simp add: decodeEvent_def ReadFull_def Uint32_PutUint32)

lemma readLoop_short_payload:
  "9 \<le> n \<Longrightarrow> length rest < unat n \<Longrightarrow>
   readLoop (PutUint32 n @ rest) [] =
     ([], Some (ReadingRecordPayload (if rest = [] then EOF else ErrUnexpectedEOF)))"
  by (subst readLoop.simps) (auto simp add: decodeEvent_def ReadFull_def Uint32_PutUint32 Let_def)

lemma readLoop_unknown_tag:
  "9 \<le> n \<Longrightarrow> length payload = unat n \<Longrightarrow> payload ! 0 \<noteq> EventNewOrder \<Longrightarrow>
   payload ! 0 \<noteq> EventCancelOrder \<Longrightarrow>
   readLoop (PutUint32 n @ payload @ rest) [] = ([], Some (UnknownEventType (payload ! 0)))"
  using unat_ge_9 [of n]
  by (subst readLoop.simps) (auto simp add: decodeEvent_def ReadFull_def Uint32_PutUint32 Let_def)


text \<open>
  C9: \<^verbatim>\<open>ReadAll\<close> returns every complete record in order. After the complete records, a tail
  that ends inside the 4-byte length prefix (or no tail) ends the read without an error; a
  length field below 9, a payload cut short after a complete length prefix, and an
  unknown event tag are errors, returned with the events read so far.
\<close>

theorem ReadAll_truncated_tail_and_hard_errors:
  "list_all2 (\<lambda>e r. encodeEvent e = Inr r) evs recs \<Longrightarrow>
   (\<forall>t. length t < 4 \<longrightarrow>
      ReadAll (Contents (concat recs @ t)) = (map decoded evs, None)) \<and>
   (\<forall>n rest. n < 9 \<longrightarrow>
      ReadAll (Contents (concat recs @ PutUint32 n @ rest)) =
        (map decoded evs, Some (InvalidRecordLength n))) \<and>
   (\<forall>n rest. 9 \<le> n \<and> length rest < unat n \<longrightarrow>
      ReadAll (Contents (concat recs @ PutUint32 n @ rest)) =
        (map decoded evs,
         Some (ReadingRecordPayload (if rest = [] then EOF else ErrUnexpectedEOF)))) \<and>
   (\<forall>n payload rest.
      9 \<le> n \<and> length payload = unat n \<and> payload ! 0 \<noteq> EventNewOrder \<and>
      payload ! 0 \<noteq> EventCancelOrder \<longrightarrow>
      ReadAll (Contents (concat recs @ PutUint32 n @ payload @ rest)) =
        (map decoded evs, Some (UnknownEventType (payload ! 0))))"
proof -
  assume recs: "list_all2 (\<lambda>e r. encodeEvent e = Inr r) evs recs"
  have split: "\<And>t. readLoop (concat recs @ t) [] =
      (case readLoop t [] of (es, err) \<Rightarrow> (map decoded evs @ es, err))"
    using readLoop_records [OF recs, of _ "[]"] by simp
  show ?thesis
    by (simp add: ReadAll_def split readLoop_short_prefix readLoop_invalid_length
        readLoop_short_payload readLoop_unknown_tag)
qed

theorem ReadAll_truncated_tail_and_hard_errors_witness:
  "\<exists>recs.
     list_all2 (\<lambda>e r. encodeEvent e = Inr r)
       [\<lparr>Event_Type = EventNewOrder, Timestamp = 1, Event_Order = zero_Order\<lparr>ID := 1\<rparr>,
         OrderID = 0\<rparr>,
        \<lparr>Event_Type = EventCancelOrder, Timestamp = 2, Event_Order = zero_Order, OrderID = 1\<rparr>]
       recs \<and>
     ReadAll (Contents (concat recs @ [0, 0, 0])) =
       ([\<lparr>Event_Type = EventNewOrder, Timestamp = 1, Event_Order = zero_Order\<lparr>ID := 1\<rparr>,
          OrderID = 0\<rparr>,
         \<lparr>Event_Type = EventCancelOrder, Timestamp = 2, Event_Order = zero_Order,
          OrderID = 1\<rparr>], None) \<and>
     ReadAll (Contents (concat recs @ PutUint32 8 @ [1, 0, 0, 0, 0, 0, 0, 0])) =
       ([\<lparr>Event_Type = EventNewOrder, Timestamp = 1, Event_Order = zero_Order\<lparr>ID := 1\<rparr>,
          OrderID = 0\<rparr>,
         \<lparr>Event_Type = EventCancelOrder, Timestamp = 2, Event_Order = zero_Order,
          OrderID = 1\<rparr>], Some (InvalidRecordLength 8)) \<and>
     ReadAll (Contents (concat recs @ PutUint32 17 @ [2, 0, 0])) =
       ([\<lparr>Event_Type = EventNewOrder, Timestamp = 1, Event_Order = zero_Order\<lparr>ID := 1\<rparr>,
          OrderID = 0\<rparr>,
         \<lparr>Event_Type = EventCancelOrder, Timestamp = 2, Event_Order = zero_Order,
          OrderID = 1\<rparr>], Some (ReadingRecordPayload ErrUnexpectedEOF)) \<and>
     ReadAll (Contents (concat recs @ PutUint32 9 @ [3, 0, 0, 0, 0, 0, 0, 0, 0])) =
       ([\<lparr>Event_Type = EventNewOrder, Timestamp = 1, Event_Order = zero_Order\<lparr>ID := 1\<rparr>,
          OrderID = 0\<rparr>,
         \<lparr>Event_Type = EventCancelOrder, Timestamp = 2, Event_Order = zero_Order,
          OrderID = 1\<rparr>], Some (UnknownEventType 3))"
proof -
  let ?e1 = "\<lparr>Event_Type = EventNewOrder, Timestamp = 1, Event_Order = zero_Order\<lparr>ID := 1\<rparr>,
              OrderID = 0\<rparr>"
  let ?e2 = "\<lparr>Event_Type = EventCancelOrder, Timestamp = 2, Event_Order = zero_Order,
              OrderID = 1\<rparr>"
  obtain r1 where r1: "encodeEvent ?e1 = Inr r1"
    by (simp add: encodeEvent_def marshalOrder_def orderWireSize_def)
  obtain r2 where r2: "encodeEvent ?e2 = Inr r2"
    by (simp add: encodeEvent_def)
  have recs: "list_all2 (\<lambda>e r. encodeEvent e = Inr r) [?e1, ?e2] [r1, r2]"
    using r1 r2 by simp
  have d: "map decoded [?e1, ?e2] = [?e1, ?e2]"
    by (simp add: decoded_def)
  have "ReadAll (Contents (concat [r1, r2] @ [0, 0, 0])) = (map decoded [?e1, ?e2], None)"
    using ReadAll_truncated_tail_and_hard_errors [OF recs] by simp
  moreover have "ReadAll (Contents (concat [r1, r2] @ PutUint32 8 @ [1, 0, 0, 0, 0, 0, 0, 0])) =
      (map decoded [?e1, ?e2], Some (InvalidRecordLength 8))"
    using ReadAll_truncated_tail_and_hard_errors [OF recs] by simp
  moreover have "ReadAll (Contents (concat [r1, r2] @ PutUint32 17 @ [2, 0, 0])) =
      (map decoded [?e1, ?e2], Some (ReadingRecordPayload ErrUnexpectedEOF))"
    using ReadAll_truncated_tail_and_hard_errors [OF recs,
        THEN conjunct2, THEN conjunct2, THEN conjunct1, rule_format, of 17 "[2, 0, 0]"]
    by simp
  moreover have "ReadAll (Contents (concat [r1, r2] @ PutUint32 9 @ [3, 0, 0, 0, 0, 0, 0, 0, 0])) =
      (map decoded [?e1, ?e2], Some (UnknownEventType 3))"
    using ReadAll_truncated_tail_and_hard_errors [OF recs,
        THEN conjunct2, THEN conjunct2, THEN conjunct2, rule_format,
        of 9 "[3, 0, 0, 0, 0, 0, 0, 0, 0]" "[]"]
    by simp
  ultimately show ?thesis
    unfolding d using recs by blast
qed

section \<open>The matching engine: data\<close>

record Symbol =
  Symbol_ID :: u32
  Name :: string

datatype ErrorCode =
  ErrorOK
  | ErrorSymbolDuplicate
  | ErrorSymbolNotFound
  | ErrorOrderBookDuplicate
  | ErrorOrderBookNotFound
  | ErrorOrderDuplicate
  | ErrorOrderNotFound
  | ErrorOrderIDInvalid
  | ErrorOrderTypeInvalid
  | ErrorOrderParameterInvalid
  | ErrorOrderQuantityInvalid

datatype UpdateType = UpdateNone | UpdateAdd | UpdateUpdate | UpdateDelete

abbreviation (input) LevelTypeBid :: u8 where "LevelTypeBid \<equiv> 0"
abbreviation (input) LevelTypeAsk :: u8 where "LevelTypeAsk \<equiv> 1"

record Level =
  Level_Type :: u8
  Level_Price :: u64
  TotalVolume :: u64
  HiddenVolume :: u64
  VisibleVolume :: u64
  Orders :: u64

definition NewLevel :: "u8 \<Rightarrow> u64 \<Rightarrow> Level" where
  "NewLevel levelType price =
     \<lparr>Level_Type = levelType, Level_Price = price, TotalVolume = 0, HiddenVolume = 0,
      VisibleVolume = 0, Orders = 0\<rparr>"

definition IsMarket :: "Order \<Rightarrow> bool" where "IsMarket x = (Type x = OrderTypeMarket)"
definition IsLimit :: "Order \<Rightarrow> bool" where "IsLimit x = (Type x = OrderTypeLimit)"
definition IsStop :: "Order \<Rightarrow> bool" where "IsStop x = (Type x = OrderTypeStop)"
definition IsStopLimit :: "Order \<Rightarrow> bool" where "IsStopLimit x = (Type x = OrderTypeStopLimit)"
definition IsTrailingStop :: "Order \<Rightarrow> bool" where
  "IsTrailingStop x = (Type x = OrderTypeTrailingStop)"
definition IsTrailingStopLimit :: "Order \<Rightarrow> bool" where
  "IsTrailingStopLimit x = (Type x = OrderTypeTrailingStopLimit)"
definition IsBuy :: "Order \<Rightarrow> bool" where "IsBuy x = (Side x = OrderSideBuy)"
definition IsSell :: "Order \<Rightarrow> bool" where "IsSell x = (Side x = OrderSideSell)"

definition HiddenQuantity :: "Order \<Rightarrow> u64" where
  "HiddenQuantity x =
     (if LeavesQuantity x > MaxVisibleQuantity x then LeavesQuantity x - MaxVisibleQuantity x
      else 0)"

definition VisibleQuantity :: "Order \<Rightarrow> u64" where
  "VisibleQuantity x =
     (if LeavesQuantity x < MaxVisibleQuantity x then LeavesQuantity x
      else MaxVisibleQuantity x)"

text \<open>
  Pointers. The engine shares its nodes by pointer: an order node is held by the registry
  and by the list of its price level, a level node by its tree, by the best-price fields of
  the book and by the orders resting on it. Here a pointer to an order node is the key under
  which the registry holds the node, and a pointer to a level node is the index it lives in
  together with its price (\<open>LevelRef\<close>); \<open>None\<close> is \<^verbatim>\<open>nil\<close>. The registry and the trees are the
  store: a write through a pointer is an update of the store at that key.
\<close>

datatype LevelIndex =
  Bids | Asks | BuyStops | SellStops | TrailingBuyStops | TrailingSellStops

type_synonym LevelRef = "LevelIndex \<times> u64"

text \<open>
  \<^verbatim>\<open>OrderNode\<close> embeds the order and adds the links. \<^verbatim>\<open>Next\<close> and \<^verbatim>\<open>Prev\<close> are the
  order list of the level, which is kept as the list of its nodes, head first.
\<close>

record OrderNode =
  Order :: Order
  Level :: "LevelRef option"

definition NewOrderNode :: "Order \<Rightarrow> OrderNode" where
  "NewOrderNode x = \<lparr>Order = x, Level = None\<rparr>"

text \<open>
  A level node: the level, its order list (\<^verbatim>\<open>Head\<close> first; \<^verbatim>\<open>Size\<close> is its length), the
  two children and the balance factor. The tree is the nodes reachable from the root, so
  \<^verbatim>\<open>Parent\<close> is the path from the root.
\<close>

datatype LevelNode =
  NilLevel
  | LevelNode Level "u64 list" LevelNode LevelNode int

definition NewLevelNode :: "u8 \<Rightarrow> u64 \<Rightarrow> LevelNode" where
  "NewLevelNode levelType price = LevelNode (NewLevel levelType price) [] NilLevel NilLevel 0"

record AVLTree =
  root :: LevelNode
  tree_size :: int
  descending :: bool

definition NewAVLTree :: "bool \<Rightarrow> AVLTree" where
  "NewAVLTree desc = \<lparr>root = NilLevel, tree_size = 0, descending = desc\<rparr>"

section \<open>The balanced tree of price levels\<close>

definition compare :: "bool \<Rightarrow> u64 \<Rightarrow> u64 \<Rightarrow> int" where
  "compare desc a b =
     (if desc then (if a > b then - 1 else if a < b then 1 else 0)
      else (if a < b then - 1 else if a > b then 1 else 0))"

fun leftmost :: "LevelNode \<Rightarrow> u64 option" where
  "leftmost NilLevel = None"
| "leftmost (LevelNode lv ol NilLevel r b) = Some (Level_Price lv)"
| "leftmost (LevelNode lv ol l r b) = leftmost l"

definition First :: "AVLTree \<Rightarrow> u64 option" where
  "First t = leftmost (root t)"

fun find_from :: "bool \<Rightarrow> u64 \<Rightarrow> LevelNode \<Rightarrow> u64 option" where
  "find_from desc price NilLevel = None"
| "find_from desc price (LevelNode lv ol l r b) =
     (if price = Level_Price lv then Some (Level_Price lv)
      else if compare desc price (Level_Price lv) < 0 then find_from desc price l
      else find_from desc price r)"

definition Find :: "AVLTree \<Rightarrow> u64 \<Rightarrow> u64 option" where
  "Find t price = find_from (descending t) price (root t)"

fun Balance :: "LevelNode \<Rightarrow> int" where
  "Balance NilLevel = 0"
| "Balance (LevelNode lv ol l r b) = b"

fun height :: "LevelNode \<Rightarrow> int" where
  "height NilLevel = 0"
| "height (LevelNode lv ol l r b) =
     (if height l > height r then height l + 1 else height r + 1)"

text \<open>
  The rotations return the new root of the rotated subtree; the caller puts it where the old
  root was, which is what the source does through the parent pointer. A rotation is only
  asked for on the side whose balance factor says the child is there.
\<close>

fun rotateLeft :: "LevelNode \<Rightarrow> LevelNode" where
  "rotateLeft (LevelNode lv ol l (LevelNode plv pol pl pr pb) b) =
     (let nb = b - 1 - max 0 pb;
          pb' = pb - 1 + min 0 nb
      in LevelNode plv pol (LevelNode lv ol l pl nb) pr pb')"
| "rotateLeft node = node"

fun rotateRight :: "LevelNode \<Rightarrow> LevelNode" where
  "rotateRight (LevelNode lv ol (LevelNode plv pol pl pr pb) r b) =
     (let nb = b + 1 - min 0 pb;
          pb' = pb + 1 + max 0 nb
      in LevelNode plv pol pl (LevelNode lv ol pr r nb) pb')"
| "rotateRight node = node"

fun rebalance :: "LevelNode \<Rightarrow> LevelNode" where
  "rebalance NilLevel = NilLevel"
| "rebalance (LevelNode lv ol l r b) =
     (if b = - 2 then
        (if Balance l \<le> 0 then rotateRight (LevelNode lv ol l r b)
         else rotateRight (LevelNode lv ol (rotateLeft l) r b))
      else if b = 2 then
        (if Balance r \<ge> 0 then rotateLeft (LevelNode lv ol l r b)
         else rotateLeft (LevelNode lv ol l (rotateRight r) b))
      else LevelNode lv ol l r b)"

text \<open>
  One round of the loop of \<^verbatim>\<open>rebalanceInsert\<close> at \<open>parent\<close>, whose left (\<open>isLeft\<close>) or right
  subtree has grown: the new subtree, and whether the loop goes on to the parent's parent.
\<close>

fun rebalanceInsert :: "LevelNode \<Rightarrow> bool \<Rightarrow> LevelNode \<times> bool" where
  "rebalanceInsert NilLevel isLeft = (NilLevel, False)"
| "rebalanceInsert (LevelNode lv ol l r b) isLeft =
     (let b' = (if isLeft then b - 1 else b + 1) in
      if b' = 0 then (LevelNode lv ol l r b', False)
      else if b' = - 2 \<or> b' = 2 then (rebalance (LevelNode lv ol l r b'), False)
      else (LevelNode lv ol l r b', True))"

fun insert_from :: "bool \<Rightarrow> LevelNode \<Rightarrow> u64 \<Rightarrow> LevelNode \<Rightarrow> LevelNode \<times> bool" where
  "insert_from desc level price NilLevel = (level, True)"
| "insert_from desc level price (LevelNode lv ol l r b) =
     (if compare desc price (Level_Price lv) < 0 then
        (case insert_from desc level price l of
           (l', grown) \<Rightarrow>
             if grown then rebalanceInsert (LevelNode lv ol l' r b) True
             else (LevelNode lv ol l' r b, False))
      else
        (case insert_from desc level price r of
           (r', grown) \<Rightarrow>
             if grown then rebalanceInsert (LevelNode lv ol l r' b) False
             else (LevelNode lv ol l r' b, False)))"

fun node_price :: "LevelNode \<Rightarrow> u64" where
  "node_price NilLevel = 0"
| "node_price (LevelNode lv ol l r b) = Level_Price lv"

definition Insert :: "AVLTree \<Rightarrow> LevelNode \<Rightarrow> AVLTree" where
  "Insert t level =
     t\<lparr>root := fst (insert_from (descending t) level (node_price level) (root t)),
       tree_size := tree_size t + 1\<rparr>"

text \<open>One round of the loop of \<^verbatim>\<open>rebalanceRemove\<close> at \<open>node\<close>.\<close>

fun rebalanceRemove :: "LevelNode \<Rightarrow> LevelNode \<times> bool" where
  "rebalanceRemove NilLevel = (NilLevel, False)"
| "rebalanceRemove (LevelNode lv ol l r b) =
     (let oldBalance = b;
          b' = height r - height l
      in if b' = - 2 \<or> b' = 2 then
           (let node = rebalance (LevelNode lv ol l r b') in
            if Balance node = - 1 \<or> Balance node = 1 then (node, False) else (node, True))
         else if oldBalance = 0 then (LevelNode lv ol l r b', False)
         else (LevelNode lv ol l r b', True))"

text \<open>
  Unlinking the successor (the leftmost node of a right subtree): its level and order list,
  the subtree without it, and whether the rebalancing loop is still running when it leaves
  the subtree.
\<close>

fun remove_successor :: "LevelNode \<Rightarrow> (Level \<times> u64 list) \<times> LevelNode \<times> bool" where
  "remove_successor NilLevel = ((NewLevel 0 0, []), NilLevel, False)"
| "remove_successor (LevelNode lv ol NilLevel r b) = ((lv, ol), r, True)"
| "remove_successor (LevelNode lv ol l r b) =
     (case remove_successor l of
        (s, l', running) \<Rightarrow>
          (case (if running then rebalanceRemove (LevelNode lv ol l' r b)
                 else (LevelNode lv ol l' r b, False)) of
             (node, running') \<Rightarrow> (s, node, running')))"

fun remove_from :: "bool \<Rightarrow> u64 \<Rightarrow> LevelNode \<Rightarrow> LevelNode \<times> bool" where
  "remove_from desc price NilLevel = (NilLevel, False)"
| "remove_from desc price (LevelNode lv ol l r b) =
     (if price = Level_Price lv then
        (if l = NilLevel \<and> r = NilLevel then (NilLevel, True)
         else if l = NilLevel then (r, True)
         else if r = NilLevel then (l, True)
         else
           (case remove_successor r of
              ((slv, sol), r', running) \<Rightarrow>
                if running then rebalanceRemove (LevelNode slv sol l r' b)
                else (LevelNode slv sol l r' b, False)))
      else if compare desc price (Level_Price lv) < 0 then
        (case remove_from desc price l of
           (l', running) \<Rightarrow>
             if running then rebalanceRemove (LevelNode lv ol l' r b)
             else (LevelNode lv ol l' r b, False))
      else
        (case remove_from desc price r of
           (r', running) \<Rightarrow>
             if running then rebalanceRemove (LevelNode lv ol l r' b)
             else (LevelNode lv ol l r' b, False)))"

definition Remove :: "AVLTree \<Rightarrow> u64 option \<Rightarrow> AVLTree" where
  "Remove t level =
     (case level of
        None \<Rightarrow> t
      | Some price \<Rightarrow>
          t\<lparr>root := fst (remove_from (descending t) price (root t)),
            tree_size := tree_size t - 1\<rparr>)"

text \<open>Reading and writing a level node through a pointer to it.\<close>

fun level_at :: "u64 \<Rightarrow> LevelNode \<Rightarrow> (Level \<times> u64 list) option" where
  "level_at price NilLevel = None"
| "level_at price (LevelNode lv ol l r b) =
     (if Level_Price lv = price then Some (lv, ol)
      else (case level_at price l of Some x \<Rightarrow> Some x | None \<Rightarrow> level_at price r))"

fun level_update :: "u64 \<Rightarrow> (Level \<times> u64 list \<Rightarrow> Level \<times> u64 list) \<Rightarrow> LevelNode \<Rightarrow> LevelNode" where
  "level_update price f NilLevel = NilLevel"
| "level_update price f (LevelNode lv ol l r b) =
     (if Level_Price lv = price
      then (case f (lv, ol) of (lv', ol') \<Rightarrow> LevelNode lv' ol' l r b)
      else LevelNode lv ol (level_update price f l) (level_update price f r) b)"

section \<open>The order book\<close>

record OrderBook =
  symbol :: Symbol
  bestBid :: "LevelRef option"
  bestAsk :: "LevelRef option"
  bids :: AVLTree
  asks :: AVLTree
  bestBuyStop :: "LevelRef option"
  bestSellStop :: "LevelRef option"
  buyStopLevels :: AVLTree
  sellStopLevels :: AVLTree
  bestTrailingBuyStop :: "LevelRef option"
  bestTrailingSellStop :: "LevelRef option"
  trailingBuyStopLevels :: AVLTree
  trailingSellStopLevels :: AVLTree
  lastBidPrice :: u64
  lastAskPrice :: u64
  matchingPrice :: u64

definition NewOrderBook :: "Symbol \<Rightarrow> OrderBook" where
  "NewOrderBook symb =
     \<lparr>symbol = symb, bestBid = None, bestAsk = None,
      bids = NewAVLTree True, asks = NewAVLTree False,
      bestBuyStop = None, bestSellStop = None,
      buyStopLevels = NewAVLTree False, sellStopLevels = NewAVLTree True,
      bestTrailingBuyStop = None, bestTrailingSellStop = None,
      trailingBuyStopLevels = NewAVLTree False, trailingSellStopLevels = NewAVLTree True,
      lastBidPrice = 0, lastAskPrice = 0, matchingPrice = 0\<rparr>"

text \<open>
  \<^verbatim>\<open>AddLevel\<close>, \<^verbatim>\<open>DeleteLevel\<close> and \<^verbatim>\<open>AddOrder\<close> of the book each branch the same way on the
  type and the side of the order to pick one of the six trees, its best-price field and the
  price that keys the level. \<open>index_of\<close> and \<open>routing_price\<close> are that branching; \<open>tree_of\<close>,
  \<open>best_of\<close> and their setters reach the fields the branch uses.
\<close>

definition index_of :: "Order \<Rightarrow> LevelIndex" where
  "index_of x =
     (if IsTrailingStop x \<or> IsTrailingStopLimit x then
        (if IsBuy x then TrailingBuyStops else TrailingSellStops)
      else if IsStop x \<or> IsStopLimit x then
        (if IsBuy x then BuyStops else SellStops)
      else (if IsBuy x then Bids else Asks))"

definition routing_price :: "Order \<Rightarrow> u64" where
  "routing_price x =
     (if IsTrailingStop x \<or> IsTrailingStopLimit x then StopPrice x
      else if IsStop x \<or> IsStopLimit x then StopPrice x
      else Price x)"

fun tree_of :: "OrderBook \<Rightarrow> LevelIndex \<Rightarrow> AVLTree" where
  "tree_of ob Bids = bids ob"
| "tree_of ob Asks = asks ob"
| "tree_of ob BuyStops = buyStopLevels ob"
| "tree_of ob SellStops = sellStopLevels ob"
| "tree_of ob TrailingBuyStops = trailingBuyStopLevels ob"
| "tree_of ob TrailingSellStops = trailingSellStopLevels ob"

fun set_tree :: "LevelIndex \<Rightarrow> AVLTree \<Rightarrow> OrderBook \<Rightarrow> OrderBook" where
  "set_tree Bids t ob = ob\<lparr>bids := t\<rparr>"
| "set_tree Asks t ob = ob\<lparr>asks := t\<rparr>"
| "set_tree BuyStops t ob = ob\<lparr>buyStopLevels := t\<rparr>"
| "set_tree SellStops t ob = ob\<lparr>sellStopLevels := t\<rparr>"
| "set_tree TrailingBuyStops t ob = ob\<lparr>trailingBuyStopLevels := t\<rparr>"
| "set_tree TrailingSellStops t ob = ob\<lparr>trailingSellStopLevels := t\<rparr>"

fun best_of :: "OrderBook \<Rightarrow> LevelIndex \<Rightarrow> LevelRef option" where
  "best_of ob Bids = bestBid ob"
| "best_of ob Asks = bestAsk ob"
| "best_of ob BuyStops = bestBuyStop ob"
| "best_of ob SellStops = bestSellStop ob"
| "best_of ob TrailingBuyStops = bestTrailingBuyStop ob"
| "best_of ob TrailingSellStops = bestTrailingSellStop ob"

fun set_best :: "LevelIndex \<Rightarrow> LevelRef option \<Rightarrow> OrderBook \<Rightarrow> OrderBook" where
  "set_best Bids v ob = ob\<lparr>bestBid := v\<rparr>"
| "set_best Asks v ob = ob\<lparr>bestAsk := v\<rparr>"
| "set_best BuyStops v ob = ob\<lparr>bestBuyStop := v\<rparr>"
| "set_best SellStops v ob = ob\<lparr>bestSellStop := v\<rparr>"
| "set_best TrailingBuyStops v ob = ob\<lparr>bestTrailingBuyStop := v\<rparr>"
| "set_best TrailingSellStops v ob = ob\<lparr>bestTrailingSellStop := v\<rparr>"

text \<open>
  The test of \<^verbatim>\<open>AddLevel\<close> that makes the new level the best one: above the best bid, sell
  stop and trailing sell stop, below the best ask, buy stop and trailing buy stop.
\<close>

fun improves :: "LevelIndex \<Rightarrow> u64 \<Rightarrow> u64 \<Rightarrow> bool" where
  "improves Bids price best = (price > best)"
| "improves Asks price best = (price < best)"
| "improves BuyStops price best = (price < best)"
| "improves SellStops price best = (price > best)"
| "improves TrailingBuyStops price best = (price < best)"
| "improves TrailingSellStops price best = (price > best)"

text \<open>Dereferencing a pointer to a level node of the book, and writing through it.\<close>

definition deref :: "OrderBook \<Rightarrow> LevelRef \<Rightarrow> (Level \<times> u64 list) option" where
  "deref ob ref = level_at (snd ref) (root (tree_of ob (fst ref)))"

definition assign :: "LevelRef \<Rightarrow> (Level \<times> u64 list \<Rightarrow> Level \<times> u64 list) \<Rightarrow> OrderBook \<Rightarrow> OrderBook" where
  "assign ref f ob =
     set_tree (fst ref)
       ((tree_of ob (fst ref))\<lparr>root := level_update (snd ref) f (root (tree_of ob (fst ref)))\<rparr>)
       ob"

definition AddLevel :: "OrderBook \<Rightarrow> Order \<Rightarrow> OrderBook \<times> LevelRef" where
  "AddLevel ob x =
     (let i = index_of x;
          price = routing_price x;
          level = NewLevelNode (if IsBuy x then LevelTypeBid else LevelTypeAsk) price;
          ob1 = set_tree i (Insert (tree_of ob i) level) ob;
          ob2 = (case best_of ob1 i of
                   None \<Rightarrow> set_best i (Some (i, price)) ob1
                 | Some best \<Rightarrow>
                     if improves i price (snd best) then set_best i (Some (i, price)) ob1
                     else ob1)
      in (ob2, (i, price)))"

definition DeleteLevel :: "OrderBook \<Rightarrow> OrderNode \<Rightarrow> OrderBook" where
  "DeleteLevel ob n =
     (let i = index_of (Order n);
          level = Level n;
          ob1 = set_tree i (Remove (tree_of ob i) (map_option snd level)) ob
      in if best_of ob1 i = level
         then set_best i (map_option (Pair i) (First (tree_of ob1 i))) ob1
         else ob1)"

text \<open>
  \<^verbatim>\<open>OrderBook.AddOrder\<close>: \<open>p\<close> is the pointer to the order node \<open>n\<close>. The node comes back with
  its \<^verbatim>\<open>Level\<close> set.
\<close>

definition OrderBook_AddOrder :: "OrderBook \<Rightarrow> u64 \<Rightarrow> OrderNode \<Rightarrow> OrderBook \<times> OrderNode" where
  "OrderBook_AddOrder ob p n =
     (let i = index_of (Order n);
          price = routing_price (Order n);
          (ob1, level) =
            (case Find (tree_of ob i) price of
               None \<Rightarrow> AddLevel ob (Order n)
             | Some q \<Rightarrow> (ob, (i, q)));
          ob2 = assign level
                  (\<lambda>(lv, ol).
                     (lv\<lparr>TotalVolume := TotalVolume lv + LeavesQuantity (Order n),
                         HiddenVolume := HiddenVolume lv + HiddenQuantity (Order n),
                         VisibleVolume := VisibleVolume lv + VisibleQuantity (Order n),
                         Orders := Orders lv + 1\<rparr>,
                      ol @ [p]))
                  ob1
      in (ob2, n\<lparr>Level := Some level\<rparr>))"

definition OrderBook_ReduceOrder :: "OrderBook \<Rightarrow> OrderNode \<Rightarrow> u64 \<Rightarrow> u64 \<Rightarrow> u64 \<Rightarrow> OrderBook option" where
  "OrderBook_ReduceOrder ob n quantity hidden visible =
     (case Level n of
        None \<Rightarrow> None
      | Some level \<Rightarrow>
          (case deref ob level of
             None \<Rightarrow> None
           | Some _ \<Rightarrow>
               Some (assign level
                       (\<lambda>(lv, ol).
                          (lv\<lparr>TotalVolume := TotalVolume lv - quantity,
                              HiddenVolume := HiddenVolume lv - hidden,
                              VisibleVolume := VisibleVolume lv - visible\<rparr>,
                           ol))
                       ob)))"

definition OrderBook_DeleteOrder :: "OrderBook \<Rightarrow> u64 \<Rightarrow> OrderNode \<Rightarrow> (OrderBook \<times> OrderNode) option" where
  "OrderBook_DeleteOrder ob p n =
     (case Level n of
        None \<Rightarrow> None
      | Some level \<Rightarrow>
          (case deref ob level of
             None \<Rightarrow> None
           | Some (lv0, ol0) \<Rightarrow>
               let ob1 = assign level
                           (\<lambda>(lv, ol).
                              (lv\<lparr>TotalVolume := TotalVolume lv - LeavesQuantity (Order n),
                                  HiddenVolume := HiddenVolume lv - HiddenQuantity (Order n),
                                  VisibleVolume := VisibleVolume lv - VisibleQuantity (Order n),
                                  Orders := Orders lv - 1\<rparr>,
                               remove1 p ol))
                           ob;
                   ob2 = (if remove1 p ol0 = [] then DeleteLevel ob1 n else ob1)
               in Some (ob2, n\<lparr>Level := None\<rparr>)))"

section \<open>The market manager\<close>

text \<open>
  The handler is the sink of the callbacks. What the engine does to it is the sequence of
  calls it makes, so the handler of the model is that sequence, oldest call first. A call
  that passes the book passes the key of the book in \<^verbatim>\<open>orderBooks\<close>.
\<close>

datatype MarketEvent =
  OnAddSymbol Symbol
  | OnDeleteSymbol Symbol
  | OnAddOrderBook u32
  | OnUpdateOrderBook u32 bool
  | OnDeleteOrderBook u32
  | OnAddLevel u32 Level bool
  | OnUpdateLevel u32 Level bool
  | OnDeleteLevel u32 Level bool
  | OnAddOrder Order
  | OnUpdateOrder Order
  | OnDeleteOrder Order
  | OnExecuteOrder Order u64 u64

record MarketManager =
  handler :: "MarketEvent list"
  symbols :: "u32 \<rightharpoonup> Symbol"
  orderBooks :: "u32 \<rightharpoonup> OrderBook"
  orders :: "u64 \<rightharpoonup> OrderNode"
  matching :: bool

definition NewMarketManager :: MarketManager where
  "NewMarketManager =
     \<lparr>handler = [], symbols = Map.empty, orderBooks = Map.empty, orders = Map.empty,
      matching = False\<rparr>"

definition EnableMatching :: "MarketManager \<Rightarrow> MarketManager" where
  "EnableMatching m = m\<lparr>matching := True\<rparr>"

definition DisableMatching :: "MarketManager \<Rightarrow> MarketManager" where
  "DisableMatching m = m\<lparr>matching := False\<rparr>"

definition notify :: "MarketEvent list \<Rightarrow> MarketManager \<Rightarrow> MarketManager" where
  "notify es m = m\<lparr>handler := handler m @ es\<rparr>"

text \<open>
  The operations return \<open>None\<close> when the source does not return: a \<^verbatim>\<open>nil\<close> book, level or
  node is dereferenced (a run-time panic), or the matching loop runs forever.
\<close>

definition validateOrder :: "Order \<Rightarrow> ErrorCode" where
  "validateOrder x =
     (if ID x = 0 then ErrorOrderIDInvalid
      else if Quantity x = 0 then ErrorOrderQuantityInvalid
      else if Type x = OrderTypeLimit then
        (if Price x = 0 then ErrorOrderParameterInvalid else ErrorOK)
      else if Type x = OrderTypeStop then
        (if StopPrice x = 0 then ErrorOrderParameterInvalid else ErrorOK)
      else if Type x = OrderTypeStopLimit then
        (if Price x = 0 \<or> StopPrice x = 0 then ErrorOrderParameterInvalid else ErrorOK)
      else if Type x = OrderTypeTrailingStop then
        (if TrailingDistance x = 0 then ErrorOrderParameterInvalid else ErrorOK)
      else if Type x = OrderTypeTrailingStopLimit then
        (if Price x = 0 \<or> TrailingDistance x = 0 then ErrorOrderParameterInvalid else ErrorOK)
      else ErrorOK)"

definition level_event :: "UpdateType \<Rightarrow> u32 \<Rightarrow> Level \<Rightarrow> bool \<Rightarrow> MarketEvent list" where
  "level_event updateType ob level isTop =
     (case updateType of
        UpdateAdd \<Rightarrow> [OnAddLevel ob level isTop]
      | UpdateUpdate \<Rightarrow> [OnUpdateLevel ob level isTop]
      | UpdateDelete \<Rightarrow> [OnDeleteLevel ob level isTop]
      | UpdateNone \<Rightarrow> [])"

text \<open>\<^verbatim>\<open>updateLevel(ob, order, updateType)\<close>; \<open>ob\<close> is the key of the book.\<close>

definition updateLevel :: "MarketManager \<Rightarrow> u32 \<Rightarrow> OrderNode \<Rightarrow> UpdateType \<Rightarrow> MarketManager option" where
  "updateLevel m ob n updateType =
     (case Level n of
        None \<Rightarrow> Some m
      | Some ref \<Rightarrow>
          (case orderBooks m ob of
             None \<Rightarrow> None
           | Some book \<Rightarrow>
               (case deref book ref of
                  None \<Rightarrow> None
                | Some (level, ol) \<Rightarrow>
                    let isTop = (if IsBuy (Order n) then bestBid book = Some ref
                               else bestAsk book = Some ref)
                    in Some (notify (level_event updateType ob level isTop @
                                     [OnUpdateOrderBook ob isTop]) m))))"

text \<open>
  \<^verbatim>\<open>executeOrder(orderNode, price, quantity)\<close>; \<open>p\<close> is the pointer to the order node. Every
  path of the source returns \<^verbatim>\<open>ErrorOK\<close>, so the result is the new state.
\<close>

definition executeOrder :: "MarketManager \<Rightarrow> u64 \<Rightarrow> u64 \<Rightarrow> u64 \<Rightarrow> MarketManager option" where
  "executeOrder m p price quantity =
     do {
       n \<leftarrow> orders m p;
       let sid = SymbolID (Order n);
       ob \<leftarrow> orderBooks m sid;
       let oldHidden = HiddenQuantity (Order n);
       let oldVisible = VisibleQuantity (Order n);
       let n1 = n\<lparr>Order := (Order n)
                  \<lparr>ExecutedQuantity := ExecutedQuantity (Order n) + quantity,
                   LeavesQuantity := LeavesQuantity (Order n) - quantity\<rparr>\<rparr>;
       let hiddenReduction = oldHidden - HiddenQuantity (Order n1);
       let visibleReduction = oldVisible - VisibleQuantity (Order n1);
       ob1 \<leftarrow> OrderBook_ReduceOrder ob n1 quantity hiddenReduction visibleReduction;
       let m1 = notify [OnExecuteOrder (Order n1) price quantity]
                  (m\<lparr>orders := (orders m)(p \<mapsto> n1),
                     orderBooks := (orderBooks m)(sid \<mapsto> ob1)\<rparr>);
       if LeavesQuantity (Order n1) = 0 then
         do {
           m2 \<leftarrow> updateLevel m1 sid n1 UpdateDelete;
           (ob2, n2) \<leftarrow> OrderBook_DeleteOrder ob1 p n1;
           Some (notify [OnDeleteOrder (Order n2)]
                   (m2\<lparr>orderBooks := (orderBooks m2)(sid \<mapsto> ob2),
                       orders := ((orders m2)(p \<mapsto> n2))(ID (Order n2) := None)\<rparr>))
         }
       else updateLevel (notify [OnUpdateOrder (Order n1)] m1) sid n1 UpdateUpdate
     }"

text \<open>
  The loop of \<^verbatim>\<open>match(ob)\<close>: \<open>ob\<close> is the key of the book. The three \<^verbatim>\<open>break\<close>s of the
  source return the state; otherwise both front orders are executed and the loop goes round.
\<close>

partial_function (option) match :: "u32 \<Rightarrow> MarketManager \<Rightarrow> MarketManager option" where
  "match ob m =
     do {
       book \<leftarrow> orderBooks m ob;
       if bestBid book = None \<or> bestAsk book = None then Some m
       else do {
         (bidLevel, bidList) \<leftarrow> Option.bind (bestBid book) (deref book);
         (askLevel, askList) \<leftarrow> Option.bind (bestAsk book) (deref book);
         if Level_Price bidLevel < Level_Price askLevel then Some m
         else if bidList = [] \<or> askList = [] then Some m
         else do {
           bidOrder \<leftarrow> orders m (hd bidList);
           askOrder \<leftarrow> orders m (hd askList);
           let quantity = (if LeavesQuantity (Order askOrder) < LeavesQuantity (Order bidOrder)
                           then LeavesQuantity (Order askOrder)
                           else LeavesQuantity (Order bidOrder));
           let price = Price (Order askOrder);
           m1 \<leftarrow> executeOrder m (hd bidList) price quantity;
           m2 \<leftarrow> executeOrder m1 (hd askList) price quantity;
           match ob m2
         }
       }
     }"

declare match.simps [code]

definition run_match :: "MarketManager \<Rightarrow> u32 \<Rightarrow> MarketManager option" where
  "run_match m ob = (if matching m then match ob m else Some m)"

definition AddSymbol :: "MarketManager \<Rightarrow> Symbol \<Rightarrow> (ErrorCode \<times> MarketManager) option" where
  "AddSymbol m symb =
     (if symbols m (Symbol_ID symb) \<noteq> None then Some (ErrorSymbolDuplicate, m)
      else Some (ErrorOK,
                 notify [OnAddSymbol symb]
                   (m\<lparr>symbols := (symbols m)(Symbol_ID symb \<mapsto> symb)\<rparr>)))"

definition AddOrderBook :: "MarketManager \<Rightarrow> Symbol \<Rightarrow> (ErrorCode \<times> MarketManager) option" where
  "AddOrderBook m symb =
     (if orderBooks m (Symbol_ID symb) \<noteq> None then Some (ErrorOrderBookDuplicate, m)
      else Some (ErrorOK,
                 notify [OnAddOrderBook (Symbol_ID symb)]
                   (m\<lparr>orderBooks := (orderBooks m)(Symbol_ID symb \<mapsto> NewOrderBook symb)\<rparr>)))"

definition DeleteOrder :: "MarketManager \<Rightarrow> u64 \<Rightarrow> (ErrorCode \<times> MarketManager) option" where
  "DeleteOrder m id' =
     (case orders m id' of
        None \<Rightarrow> Some (ErrorOrderNotFound, m)
      | Some n \<Rightarrow>
          do {
            let sid = SymbolID (Order n);
            m1 \<leftarrow> updateLevel m sid n UpdateDelete;
            ob \<leftarrow> orderBooks m1 sid;
            (ob1, n1) \<leftarrow> OrderBook_DeleteOrder ob id' n;
            Some (ErrorOK,
                  notify [OnDeleteOrder (Order n1)]
                    (m1\<lparr>orderBooks := (orderBooks m1)(sid \<mapsto> ob1),
                        orders := (orders m1)(id' := None)\<rparr>))
          })"

text \<open>
  \<^verbatim>\<open>DeleteOrderBook\<close> ranges over the registry, whose order of iteration Go leaves open:
  \<open>keys\<close> is the order in which the range visits the keys. The codes of the calls to
  \<^verbatim>\<open>DeleteOrder\<close> are dropped, as in the source.
\<close>

fun delete_all :: "MarketManager \<Rightarrow> u64 list \<Rightarrow> MarketManager option" where
  "delete_all m [] = Some m"
| "delete_all m (id' # ids) =
     (case DeleteOrder m id' of None \<Rightarrow> None | Some (code, m1) \<Rightarrow> delete_all m1 ids)"

definition DeleteOrderBook :: "u64 list \<Rightarrow> MarketManager \<Rightarrow> u32 \<Rightarrow> (ErrorCode \<times> MarketManager) option" where
  "DeleteOrderBook keys m id' =
     (if orderBooks m id' = None then Some (ErrorOrderBookNotFound, m)
      else
        do {
          let ordersToDelete =
                concat (map (\<lambda>k. case orders m k of
                                   None \<Rightarrow> []
                                 | Some n \<Rightarrow> if SymbolID (Order n) = id' then [n] else []) keys);
          m1 \<leftarrow> delete_all m (map (\<lambda>n. ID (Order n)) ordersToDelete);
          Some (ErrorOK,
                notify [OnDeleteOrderBook id'] (m1\<lparr>orderBooks := (orderBooks m1)(id' := None)\<rparr>))
        })"

definition DeleteSymbol :: "u64 list \<Rightarrow> MarketManager \<Rightarrow> u32 \<Rightarrow> (ErrorCode \<times> MarketManager) option" where
  "DeleteSymbol keys m id' =
     (case symbols m id' of
        None \<Rightarrow> Some (ErrorSymbolNotFound, m)
      | Some symb \<Rightarrow>
          do {
            m1 \<leftarrow> (if orderBooks m id' \<noteq> None
                   then map_option snd (DeleteOrderBook keys m id') else Some m);
            Some (ErrorOK,
                  notify [OnDeleteSymbol symb] (m1\<lparr>symbols := (symbols m1)(id' := None)\<rparr>))
          })"

definition AddOrder :: "MarketManager \<Rightarrow> Order \<Rightarrow> (ErrorCode \<times> MarketManager) option" where
  "AddOrder m x =
     (if validateOrder x \<noteq> ErrorOK then Some (validateOrder x, m)
      else if orders m (ID x) \<noteq> None then Some (ErrorOrderDuplicate, m)
      else
        (case orderBooks m (SymbolID x) of
           None \<Rightarrow> Some (ErrorOrderBookNotFound, m)
         | Some ob \<Rightarrow>
             do {
               let orderNode = NewOrderNode x;
               let (ob1, n1) = OrderBook_AddOrder ob (ID x) orderNode;
               let m1 = notify [OnAddOrder x]
                          (m\<lparr>orders := (orders m)(ID x \<mapsto> n1),
                             orderBooks := (orderBooks m)(SymbolID x \<mapsto> ob1)\<rparr>);
               m2 \<leftarrow> updateLevel m1 (SymbolID x) n1 UpdateAdd;
               m3 \<leftarrow> run_match m2 (SymbolID x);
               Some (ErrorOK, m3)
             }))"

definition ReduceOrder :: "MarketManager \<Rightarrow> u64 \<Rightarrow> u64 \<Rightarrow> (ErrorCode \<times> MarketManager) option" where
  "ReduceOrder m id' quantity =
     (case orders m id' of
        None \<Rightarrow> Some (ErrorOrderNotFound, m)
      | Some n \<Rightarrow>
          if quantity = 0 then Some (ErrorOrderQuantityInvalid, m)
          else if quantity \<ge> LeavesQuantity (Order n) then DeleteOrder m id'
          else
            do {
              let sid = SymbolID (Order n);
              ob \<leftarrow> orderBooks m sid;
              let oldHidden = HiddenQuantity (Order n);
              let oldVisible = VisibleQuantity (Order n);
              let n1 = n\<lparr>Order := (Order n)
                         \<lparr>LeavesQuantity := LeavesQuantity (Order n) - quantity\<rparr>\<rparr>;
              let hiddenReduction = oldHidden - HiddenQuantity (Order n1);
              let visibleReduction = oldVisible - VisibleQuantity (Order n1);
              ob1 \<leftarrow> OrderBook_ReduceOrder ob n1 quantity hiddenReduction visibleReduction;
              let m1 = notify [OnUpdateOrder (Order n1)]
                         (m\<lparr>orders := (orders m)(id' \<mapsto> n1),
                            orderBooks := (orderBooks m)(sid \<mapsto> ob1)\<rparr>);
              m2 \<leftarrow> updateLevel m1 sid n1 UpdateUpdate;
              Some (ErrorOK, m2)
            })"

definition ModifyOrder :: "MarketManager \<Rightarrow> u64 \<Rightarrow> u64 \<Rightarrow> u64 \<Rightarrow> (ErrorCode \<times> MarketManager) option" where
  "ModifyOrder m id' newPrice newQuantity =
     (case orders m id' of
        None \<Rightarrow> Some (ErrorOrderNotFound, m)
      | Some n \<Rightarrow>
          if newQuantity = 0 then Some (ErrorOrderQuantityInvalid, m)
          else
            do {
              let sid = SymbolID (Order n);
              m1 \<leftarrow> updateLevel m sid n UpdateDelete;
              ob \<leftarrow> orderBooks m1 sid;
              (ob1, n1) \<leftarrow> OrderBook_DeleteOrder ob id' n;
              let n2 = n1\<lparr>Order := (Order n1)
                         \<lparr>Price := newPrice, Quantity := newQuantity,
                          LeavesQuantity := newQuantity, ExecutedQuantity := 0\<rparr>\<rparr>;
              let (ob2, n3) = OrderBook_AddOrder ob1 id' n2;
              let m2 = notify [OnUpdateOrder (Order n3)]
                         (m1\<lparr>orders := (orders m1)(id' \<mapsto> n3),
                             orderBooks := (orderBooks m1)(sid \<mapsto> ob2)\<rparr>);
              m3 \<leftarrow> updateLevel m2 sid n3 UpdateAdd;
              m4 \<leftarrow> run_match m3 sid;
              Some (ErrorOK, m4)
            })"

definition MitigateOrder :: "MarketManager \<Rightarrow> u64 \<Rightarrow> u64 \<Rightarrow> u64 \<Rightarrow> (ErrorCode \<times> MarketManager) option" where
  "MitigateOrder m id' newPrice newQuantity =
     (case orders m id' of
        None \<Rightarrow> Some (ErrorOrderNotFound, m)
      | Some n \<Rightarrow>
          if newQuantity \<le> ExecutedQuantity (Order n) then DeleteOrder m id'
          else
            do {
              let sid = SymbolID (Order n);
              m1 \<leftarrow> updateLevel m sid n UpdateDelete;
              ob \<leftarrow> orderBooks m1 sid;
              (ob1, n1) \<leftarrow> OrderBook_DeleteOrder ob id' n;
              let n2 = n1\<lparr>Order := (Order n1)
                         \<lparr>Price := newPrice, Quantity := newQuantity,
                          LeavesQuantity := newQuantity - ExecutedQuantity (Order n1)\<rparr>\<rparr>;
              let (ob2, n3) = OrderBook_AddOrder ob1 id' n2;
              let m2 = notify [OnUpdateOrder (Order n3)]
                         (m1\<lparr>orders := (orders m1)(id' \<mapsto> n3),
                             orderBooks := (orderBooks m1)(sid \<mapsto> ob2)\<rparr>);
              m3 \<leftarrow> updateLevel m2 sid n3 UpdateAdd;
              m4 \<leftarrow> run_match m3 sid;
              Some (ErrorOK, m4)
            })"

definition ReplaceOrder :: "MarketManager \<Rightarrow> u64 \<Rightarrow> u64 \<Rightarrow> u64 \<Rightarrow> u64 \<Rightarrow> (ErrorCode \<times> MarketManager) option" where
  "ReplaceOrder m id' newID newPrice newQuantity =
     (case orders m id' of
        None \<Rightarrow> Some (ErrorOrderNotFound, m)
      | Some n \<Rightarrow>
          if newQuantity = 0 then Some (ErrorOrderQuantityInvalid, m)
          else if orders m newID \<noteq> None then Some (ErrorOrderDuplicate, m)
          else
            do {
              let sid = SymbolID (Order n);
              m1 \<leftarrow> updateLevel m sid n UpdateDelete;
              ob \<leftarrow> orderBooks m1 sid;
              (ob1, n1) \<leftarrow> OrderBook_DeleteOrder ob id' n;
              let m2 = notify [OnDeleteOrder (Order n1)]
                         (m1\<lparr>orders := (orders m1)(id' := None)\<rparr>);
              let newOrder =
                    \<lparr>ID = newID, SymbolID = SymbolID (Order n1), Type = Type (Order n1),
                     Side = Side (Order n1), Price = newPrice, StopPrice = StopPrice (Order n1),
                     Quantity = newQuantity, ExecutedQuantity = 0, LeavesQuantity = newQuantity,
                     TimeInForce = TimeInForce (Order n1),
                     MaxVisibleQuantity = MaxVisibleQuantity (Order n1),
                     Slippage = Slippage (Order n1),
                     TrailingDistance = TrailingDistance (Order n1),
                     TrailingStep = TrailingStep (Order n1)\<rparr>;
              let (ob2, newOrderNode) = OrderBook_AddOrder ob1 newID (NewOrderNode newOrder);
              let m3 = notify [OnAddOrder newOrder]
                         (m2\<lparr>orders := (orders m2)(newID \<mapsto> newOrderNode),
                             orderBooks := (orderBooks m2)(sid \<mapsto> ob2)\<rparr>);
              m4 \<leftarrow> updateLevel m3 sid newOrderNode UpdateAdd;
              m5 \<leftarrow> run_match m4 sid;
              Some (ErrorOK, m5)
            })"

definition ExecuteOrder :: "MarketManager \<Rightarrow> u64 \<Rightarrow> u64 \<Rightarrow> (ErrorCode \<times> MarketManager) option" where
  "ExecuteOrder m id' quantity =
     (case orders m id' of
        None \<Rightarrow> Some (ErrorOrderNotFound, m)
      | Some n \<Rightarrow>
          if quantity = 0 \<or> quantity > LeavesQuantity (Order n)
          then Some (ErrorOrderQuantityInvalid, m)
          else map_option (Pair ErrorOK) (executeOrder m id' (Price (Order n)) quantity))"

definition ExecuteOrderWithPrice :: "MarketManager \<Rightarrow> u64 \<Rightarrow> u64 \<Rightarrow> u64 \<Rightarrow> (ErrorCode \<times> MarketManager) option" where
  "ExecuteOrderWithPrice m id' price quantity =
     (case orders m id' of
        None \<Rightarrow> Some (ErrorOrderNotFound, m)
      | Some n \<Rightarrow>
          if quantity = 0 \<or> quantity > LeavesQuantity (Order n)
          then Some (ErrorOrderQuantityInvalid, m)
          else map_option (Pair ErrorOK) (executeOrder m id' price quantity))"

definition Match :: "MarketManager \<Rightarrow> u32 \<Rightarrow> (ErrorCode \<times> MarketManager) option" where
  "Match m symbolID =
     (if orderBooks m symbolID = None then Some (ErrorOrderBookNotFound, m)
      else map_option (Pair ErrorOK) (match symbolID m))"

section \<open>The persistence manager\<close>

text \<open>
  The journal is the sequence of bytes handed to its buffered writer. What
  \<^verbatim>\<open>writer.Write(record)\<close> does is the environment's choice: it takes the whole record, or it
  fails with an error after some prefix of the record.
\<close>

record Journal =
  written :: "u8 list"

datatype WriteOutcome = Written | WriteFails nat nat

datatype persistence_error =
  EncodeError error
  | WriteError nat
  | JournallingNewOrder persistence_error
  | JournallingCancelOrder persistence_error
  | EngineAddOrder ErrorCode
  | EngineCancelOrder ErrorCode

definition Append :: "WriteOutcome \<Rightarrow> Journal \<Rightarrow> MatchingEvent \<Rightarrow> persistence_error option \<times> Journal" where
  "Append io j event =
     (case encodeEvent event of
        Inl err \<Rightarrow> (Some (EncodeError err), j)
      | Inr record \<Rightarrow>
          (case io of
             Written \<Rightarrow> (None, j\<lparr>written := written j @ record\<rparr>)
           | WriteFails k errno \<Rightarrow> (Some (WriteError errno), j\<lparr>written := written j @ take k record\<rparr>)))"

record Manager =
  mm :: MarketManager
  journal :: Journal

definition Manager_AddOrder :: "WriteOutcome \<Rightarrow> i64 \<Rightarrow> Manager \<Rightarrow> Order \<Rightarrow> (persistence_error option \<times> Manager) option" where
  "Manager_AddOrder io now mgr x =
     (let event = \<lparr>Event_Type = EventNewOrder, Timestamp = now, Event_Order = x, OrderID = 0\<rparr> in
      case Append io (journal mgr) event of
        (Some err, j) \<Rightarrow> Some (Some (JournallingNewOrder err), mgr\<lparr>journal := j\<rparr>)
      | (None, j) \<Rightarrow>
          (case AddOrder (mm mgr) x of
             None \<Rightarrow> None
           | Some (code, mm1) \<Rightarrow>
               Some (if code \<noteq> ErrorOK then Some (EngineAddOrder code) else None,
                     mgr\<lparr>journal := j, mm := mm1\<rparr>)))"

definition Manager_CancelOrder :: "WriteOutcome \<Rightarrow> i64 \<Rightarrow> Manager \<Rightarrow> u64 \<Rightarrow> (persistence_error option \<times> Manager) option" where
  "Manager_CancelOrder io now mgr orderID =
     (let event = \<lparr>Event_Type = EventCancelOrder, Timestamp = now, Event_Order = zero_Order,
                   OrderID = orderID\<rparr> in
      case Append io (journal mgr) event of
        (Some err, j) \<Rightarrow> Some (Some (JournallingCancelOrder err), mgr\<lparr>journal := j\<rparr>)
      | (None, j) \<Rightarrow>
          (case DeleteOrder (mm mgr) orderID of
             None \<Rightarrow> None
           | Some (code, mm1) \<Rightarrow>
               Some (if code \<noteq> ErrorOK then Some (EngineCancelOrder code) else None,
                     mgr\<lparr>journal := j, mm := mm1\<rparr>)))"

section \<open>Scenarios\<close>

text \<open>
  The constructors \<^verbatim>\<open>NewOrder\<close> and \<^verbatim>\<open>NewLimitOrder\<close> of the source, a symbol, and the
  record a test handler keeps of \<^verbatim>\<open>OnExecuteOrder\<close>: the order id, the price and the quantity
  of every execution.
\<close>

definition NewOrder :: "u64 \<Rightarrow> u32 \<Rightarrow> u8 \<Rightarrow> u8 \<Rightarrow> u64 \<Rightarrow> u64 \<Rightarrow> u64 \<Rightarrow> Order" where
  "NewOrder id' symbolID orderType side price stopPrice quantity =
     \<lparr>ID = id', SymbolID = symbolID, Type = orderType, Side = side, Price = price,
      StopPrice = stopPrice, Quantity = quantity, ExecutedQuantity = 0,
      LeavesQuantity = quantity, TimeInForce = OrderTimeInForceGTC,
      MaxVisibleQuantity = MaxVisibleQuantityDefault, Slippage = MaxSlippage,
      TrailingDistance = 0, TrailingStep = 0\<rparr>"

definition NewLimitOrder :: "u64 \<Rightarrow> u32 \<Rightarrow> u8 \<Rightarrow> u64 \<Rightarrow> u64 \<Rightarrow> Order" where
  "NewLimitOrder id' symbolID side price quantity =
     NewOrder id' symbolID OrderTypeLimit side price 0 quantity"

definition AAPL :: Symbol where
  "AAPL = \<lparr>Symbol_ID = 1, Name = ''AAPL''\<rparr>"

fun executions :: "MarketEvent list \<Rightarrow> (u64 \<times> u64 \<times> u64) list" where
  "executions [] = []"
| "executions (OnExecuteOrder x price quantity # es) = (ID x, price, quantity) # executions es"
| "executions (e # es) = executions es"

section \<open>Execution price\<close>

text \<open>
  C1: the loop takes the price of every trade from the front ask order. When the ask rested
  first (a buy at 101 meets an ask at 100) both sides execute at 100, the price of the
  resting order. When the bid rested first (a sell at 99 meets a bid at 100) both sides
  execute at 99, the price of the incoming order, where the claim has 100.
\<close>

theorem match_price_is_the_ask_price:
  "do { (c0, m0) \<leftarrow> AddOrderBook (EnableMatching NewMarketManager) AAPL;
        (c1, m1) \<leftarrow> AddOrder m0 (NewLimitOrder 1 1 OrderSideSell 100 10);
        (c2, m2) \<leftarrow> AddOrder m1 (NewLimitOrder 2 1 OrderSideBuy 101 10);
        Some (c1, c2, executions (handler m2)) } =
     Some (ErrorOK, ErrorOK, [(2, 100, 10), (1, 100, 10)]) \<and>
   do { (c0, m0) \<leftarrow> AddOrderBook (EnableMatching NewMarketManager) AAPL;
        (c1, m1) \<leftarrow> AddOrder m0 (NewLimitOrder 1 1 OrderSideBuy 100 10);
        (c2, m2) \<leftarrow> AddOrder m1 (NewLimitOrder 2 1 OrderSideSell 99 10);
        Some (c1, c2, executions (handler m2)) } =
     Some (ErrorOK, ErrorOK, [(1, 99, 10), (2, 99, 10)])"
  by code_simp

section \<open>What \<^verbatim>\<open>AddOrder\<close> stores\<close>

lemma updateLevel_Some:
  assumes "updateLevel m ob n u = Some m'"
  shows "orders m' = orders m" "orderBooks m' = orderBooks m" "matching m' = matching m"
    "symbols m' = symbols m"
  using assms
  by (auto simp add: updateLevel_def notify_def Let_def split: option.splits prod.splits)

lemma updateLevel_handler:
  assumes "updateLevel m ob n u = Some m'" and "Level n = Some ref"
  shows "\<exists>book level ol.
           orderBooks m ob = Some book \<and> deref book ref = Some (level, ol) \<and>
           handler m' = handler m @ level_event u ob level
               (if IsBuy (Order n) then bestBid book = Some ref else bestAsk book = Some ref) @
             [OnUpdateOrderBook ob
               (if IsBuy (Order n) then bestBid book = Some ref else bestAsk book = Some ref)]"
  using assms
  by (auto simp add: updateLevel_def notify_def Let_def split: option.splits prod.splits)

text \<open>
  C5, as stated, fails: an order accepted with 100 in total, 40 executed and 60 left is
  stored with 60 left and 40 executed.
\<close>

theorem AddOrder_initialises_leaves_counterexample:
  "do { (c0, m0) \<leftarrow> AddOrderBook NewMarketManager AAPL;
        (c1, m1) \<leftarrow> AddOrder m0 ((NewLimitOrder 1 1 OrderSideBuy 10000 100)
                                   \<lparr>ExecutedQuantity := 40, LeavesQuantity := 60\<rparr>);
        n \<leftarrow> orders m1 1;
        Some (c1, Quantity (Order n), LeavesQuantity (Order n), ExecutedQuantity (Order n)) } =
   Some (ErrorOK, 100, 60, 40)"
  by code_simp

text \<open>
  C5, amended: an order that \<^verbatim>\<open>AddOrder\<close> accepts while matching is off is stored in the
  registry under its id exactly as the caller passed it, the executed and leaves quantities
  included.
\<close>

theorem AddOrder_stores_the_order_as_supplied:
  assumes "AddOrder m x = Some (ErrorOK, m')" and "\<not> matching m"
  shows "map_option Order (orders m' (ID x)) = Some x"
proof -
  from assms(1) obtain ob where ob: "orderBooks m (SymbolID x) = Some ob"
    by (auto simp add: AddOrder_def split: if_splits option.splits)
  obtain ob1 n1 where add: "OrderBook_AddOrder ob (ID x) (NewOrderNode x) = (ob1, n1)"
    by (cases "OrderBook_AddOrder ob (ID x) (NewOrderNode x)")
  have n1: "Order n1 = x"
    using add by (auto simp add: OrderBook_AddOrder_def NewOrderNode_def Let_def split: prod.splits)
  let ?m1 = "notify [OnAddOrder x]
               (m\<lparr>orders := (orders m)(ID x \<mapsto> n1),
                  orderBooks := (orderBooks m)(SymbolID x \<mapsto> ob1)\<rparr>)"
  from assms(1) ob add obtain m2 where
    m2: "updateLevel ?m1 (SymbolID x) n1 UpdateAdd = Some m2" and m3: "run_match m2 (SymbolID x) = Some m'"
    by (auto simp add: AddOrder_def Let_def split: if_splits option.splits Option.bind_splits)
  have "matching m2 = matching m"
    using updateLevel_Some(3) [OF m2] by (simp add: notify_def)
  with m3 assms(2) have "m' = m2"
    by (simp add: run_match_def)
  moreover have "orders m2 = (orders m)(ID x \<mapsto> n1)"
    using updateLevel_Some(1) [OF m2] by (simp add: notify_def)
  ultimately show ?thesis
    using n1 by simp
qed

theorem AddOrder_stores_the_order_as_supplied_witness:
  "\<exists>m0 m1.
     AddOrderBook NewMarketManager AAPL = Some (ErrorOK, m0) \<and> \<not> matching m0 \<and>
     AddOrder m0 ((NewLimitOrder 1 1 OrderSideBuy 10000 100)
                    \<lparr>ExecutedQuantity := 40, LeavesQuantity := 60\<rparr>) = Some (ErrorOK, m1) \<and>
     map_option Order (orders m1 1) =
       Some ((NewLimitOrder 1 1 OrderSideBuy 10000 100)
               \<lparr>ExecutedQuantity := 40, LeavesQuantity := 60\<rparr>)"
proof -
  let ?x = "(NewLimitOrder 1 1 OrderSideBuy 10000 100)\<lparr>ExecutedQuantity := 40, LeavesQuantity := 60\<rparr>"
  obtain m0 where m0: "AddOrderBook NewMarketManager AAPL = Some (ErrorOK, m0)"
    by (simp add: AddOrderBook_def NewMarketManager_def)
  have nm: "\<not> matching m0"
    using m0 by (auto simp add: AddOrderBook_def NewMarketManager_def notify_def)
  have "map_option fst (AddOrderBook NewMarketManager AAPL \<bind> (\<lambda>(c, m). AddOrder m ?x)) = Some ErrorOK"
    by code_simp
  then obtain m1 where m1: "AddOrder m0 ?x = Some (ErrorOK, m1)"
    using m0 by auto
  have "ID ?x = 1"
    by (simp add: NewLimitOrder_def NewOrder_def)
  with AddOrder_stores_the_order_as_supplied [OF m1 nm] m0 nm m1 show ?thesis
    by auto
qed

section \<open>The events of \<^verbatim>\<open>DeleteOrder\<close>\<close>

lemma DeleteOrder_level_event:
  assumes "orders m id' = Some n" and "DeleteOrder m id' = Some (code, m')"
  shows "\<exists>ref book level ol isTop.
           Level n = Some ref \<and> orderBooks m (SymbolID (Order n)) = Some book \<and>
           deref book ref = Some (level, ol) \<and>
           code = ErrorOK \<and>
           handler m' = handler m @
             [OnDeleteLevel (SymbolID (Order n)) level isTop,
              OnUpdateOrderBook (SymbolID (Order n)) isTop,
              OnDeleteOrder (Order n)]"
proof -
  let ?sid = "SymbolID (Order n)"
  from assms obtain m1 ob ob1 n1 where
    m1: "updateLevel m ?sid n UpdateDelete = Some m1" and
    ob: "orderBooks m1 ?sid = Some ob" and
    del: "OrderBook_DeleteOrder ob id' n = Some (ob1, n1)" and
    res: "code = ErrorOK"
      "m' = notify [OnDeleteOrder (Order n1)]
              (m1\<lparr>orderBooks := (orderBooks m1)(?sid \<mapsto> ob1),
                  orders := (orders m1)(id' := None)\<rparr>)"
    by (auto simp add: DeleteOrder_def Let_def split: option.splits Option.bind_splits)
  from del obtain ref where ref: "Level n = Some ref" and n1: "Order n1 = Order n"
    by (auto simp add: OrderBook_DeleteOrder_def Let_def split: option.splits)
  from updateLevel_handler [OF m1 ref] res ref n1 show ?thesis
    by (auto simp add: level_event_def notify_def)
qed

text \<open>
  C6: two buy orders rest at 100 and the first is cancelled. The level keeps the second
  order, and the handler still receives \<^verbatim>\<open>OnDeleteLevel\<close> (with the level as it was before
  the removal), then \<^verbatim>\<open>OnUpdateOrderBook\<close>, then \<^verbatim>\<open>OnDeleteOrder\<close>.
\<close>

theorem DeleteOrder_sends_level_Delete_for_a_level_that_stays: 
  "do { (c0, m0) \<leftarrow> AddOrderBook NewMarketManager AAPL;
        (c1, m1) \<leftarrow> AddOrder m0 (NewLimitOrder 1 1 OrderSideBuy 100 10);
        (c2, m2) \<leftarrow> AddOrder m1 (NewLimitOrder 2 1 OrderSideBuy 100 10);
        (c3, m3) \<leftarrow> DeleteOrder m2 1;
        book \<leftarrow> orderBooks m3 1;
        Some (c3, drop (length (handler m2)) (handler m3), deref book (Bids, 100)) } =
     Some (ErrorOK,
       [OnDeleteLevel 1 \<lparr>Level_Type = LevelTypeBid, Level_Price = 100, TotalVolume = 20,
          HiddenVolume = 0, VisibleVolume = 20, Orders = 2\<rparr> True,
        OnUpdateOrderBook 1 True,
        OnDeleteOrder (NewLimitOrder 1 1 OrderSideBuy 100 10)],
       Some (\<lparr>Level_Type = LevelTypeBid, Level_Price = 100, TotalVolume = 10,
          HiddenVolume = 0, VisibleVolume = 10, Orders = 1\<rparr>, [2]))"
  by code_simp

section \<open>Reducing an order by its leaves or more\<close>

text \<open>
  C7, as stated, fails where the leaves quantity is 0 and the reduction is 0: an order
  accepted with no leaves rests in the book, reducing it by 0 is refused and leaves it
  there, deleting it succeeds.
\<close>

theorem ReduceOrder_zero_leaves_counterexample:
  "do { (c0, m0) \<leftarrow> AddOrderBook NewMarketManager AAPL;
        (c1, m1) \<leftarrow> AddOrder m0 ((NewLimitOrder 1 1 OrderSideBuy 10000 100)\<lparr>LeavesQuantity := 0\<rparr>);
        n \<leftarrow> orders m1 1;
        (c2, m2) \<leftarrow> ReduceOrder m1 1 0;
        (c3, m3) \<leftarrow> DeleteOrder m1 1;
        Some (c1, LeavesQuantity (Order n), c2, orders m2 1 = None, c3, orders m3 1 = None) } =
   Some (ErrorOK, 0, ErrorOrderQuantityInvalid, False, ErrorOK, True)"
  by code_simp

text \<open>
  C7, amended: for an order in the registry, reducing by a quantity that is not 0 and is at
  least the leaves quantity is \<^verbatim>\<open>DeleteOrder\<close>: the same code, the same state, the same
  events, and no return where \<^verbatim>\<open>DeleteOrder\<close> does not return. Reducing by 0 returns
  \<^verbatim>\<open>ErrorOrderQuantityInvalid\<close> and the state as it was.
\<close>

theorem ReduceOrder_at_least_leaves_is_DeleteOrder:
  "orders m id' = Some n \<Longrightarrow>
   (\<forall>quantity. quantity \<ge> LeavesQuantity (Order n) \<and> quantity \<noteq> 0 \<longrightarrow>
      ReduceOrder m id' quantity = DeleteOrder m id') \<and>
   ReduceOrder m id' 0 = Some (ErrorOrderQuantityInvalid, m)"
  by (simp add: ReduceOrder_def)

theorem ReduceOrder_at_least_leaves_is_DeleteOrder_witness:
  "\<exists>m n.
     (AddOrderBook NewMarketManager AAPL \<bind>
        (\<lambda>(c, m0). AddOrder m0 (NewLimitOrder 1 1 OrderSideBuy 10000 100))) = Some (ErrorOK, m) \<and>
     orders m 1 = Some n \<and> LeavesQuantity (Order n) = 100 \<and>
     ReduceOrder m 1 200 = DeleteOrder m 1 \<and>
     map_option fst (DeleteOrder m 1) = Some ErrorOK \<and>
     ReduceOrder m 1 0 = Some (ErrorOrderQuantityInvalid, m)"
proof -
  let ?run = "AddOrderBook NewMarketManager AAPL \<bind>
        (\<lambda>(c, m0). AddOrder m0 (NewLimitOrder 1 1 OrderSideBuy 10000 100))"
  have "map_option (\<lambda>(c, m). (c, map_option (\<lambda>n. LeavesQuantity (Order n)) (orders m 1),
           map_option fst (DeleteOrder m 1))) ?run = Some (ErrorOK, Some 100, Some ErrorOK)"
    by code_simp
  then obtain m n where m: "?run = Some (ErrorOK, m)" and n: "orders m 1 = Some n"
    and l: "LeavesQuantity (Order n) = 100" and d: "map_option fst (DeleteOrder m 1) = Some ErrorOK"
    by auto
  have "(200::u64) \<ge> LeavesQuantity (Order n) \<and> (200::u64) \<noteq> 0"
    using l by simp
  with ReduceOrder_at_least_leaves_is_DeleteOrder [OF n] m n l d show ?thesis
    by blast
qed

section \<open>Journal first, engine second\<close>

lemma Append_Written:
  "Event_Type event = EventNewOrder \<or> Event_Type event = EventCancelOrder \<Longrightarrow>
   \<exists>r. encodeEvent event = Inr r \<and> Append Written j event = (None, j\<lparr>written := written j @ r\<rparr>)"
  by (auto simp add: Append_def encodeEvent_def marshalOrder_def orderWireSize_def)

lemma Append_WriteFails:
  "Event_Type event = EventNewOrder \<or> Event_Type event = EventCancelOrder \<Longrightarrow>
   \<exists>j'. Append (WriteFails k errno) j event = (Some (WriteError errno), j')"
  by (auto simp add: Append_def encodeEvent_def marshalOrder_def orderWireSize_def)

text \<open>
  C2, as stated, fails in its second half: the same order is submitted twice, the engine
  rejects the second submission as a duplicate and is left as it was, and the journal read
  back holds both records.
\<close>

theorem journal_holds_rejected_command:
  "do { (c0, m0) \<leftarrow> AddOrderBook NewMarketManager AAPL;
        (e1, mgr1) \<leftarrow> Manager_AddOrder Written 5 \<lparr>mm = m0, journal = \<lparr>written = []\<rparr>\<rparr>
                         (NewLimitOrder 1 1 OrderSideBuy 10000 100);
        (e2, mgr2) \<leftarrow> Manager_AddOrder Written 6 mgr1 (NewLimitOrder 1 1 OrderSideBuy 10000 100);
        Some (e1, e2, handler (mm mgr2) = handler (mm mgr1),
              map Timestamp (fst (ReadAll (Contents (written (journal mgr2)))))) } =
   Some (None, Some (EngineAddOrder ErrorOrderDuplicate), True, [5, 6])"
  by code_simp

text \<open>
  C2, amended: when the write to the journal fails, the engine is not called, its state
  is unchanged and the command returns the journalling error. When the write succeeds, the
  record is in the journal and the engine is called with the command; the record stays
  whatever code the engine returns, so the journal holds a record also for a command the
  engine rejects.
\<close>

theorem Manager_journals_then_calls_the_engine:
  "(\<forall>k errno. \<exists>j.
      Manager_AddOrder (WriteFails k errno) now mgr x =
        Some (Some (JournallingNewOrder (WriteError errno)), mgr\<lparr>journal := j\<rparr>)) \<and>
   (\<forall>k errno. \<exists>j.
      Manager_CancelOrder (WriteFails k errno) now mgr orderID =
        Some (Some (JournallingCancelOrder (WriteError errno)), mgr\<lparr>journal := j\<rparr>)) \<and>
   (\<exists>r. encodeEvent \<lparr>Event_Type = EventNewOrder, Timestamp = now, Event_Order = x,
               OrderID = 0\<rparr> = Inr r \<and>
      Manager_AddOrder Written now mgr x =
        map_option
          (\<lambda>(code, mm1).
             (if code = ErrorOK then None else Some (EngineAddOrder code),
              mgr\<lparr>journal := (journal mgr)\<lparr>written := written (journal mgr) @ r\<rparr>,
                  mm := mm1\<rparr>))
          (AddOrder (mm mgr) x)) \<and>
   (\<exists>r. encodeEvent \<lparr>Event_Type = EventCancelOrder, Timestamp = now,
               Event_Order = zero_Order, OrderID = orderID\<rparr> = Inr r \<and>
      Manager_CancelOrder Written now mgr orderID =
        map_option
          (\<lambda>(code, mm1).
             (if code = ErrorOK then None else Some (EngineCancelOrder code),
              mgr\<lparr>journal := (journal mgr)\<lparr>written := written (journal mgr) @ r\<rparr>,
                  mm := mm1\<rparr>))
          (DeleteOrder (mm mgr) orderID))"
proof -
  let ?new = "\<lparr>Event_Type = EventNewOrder, Timestamp = now, Event_Order = x, OrderID = 0\<rparr>"
  let ?cancel = "\<lparr>Event_Type = EventCancelOrder, Timestamp = now, Event_Order = zero_Order,
                  OrderID = orderID\<rparr>"
  have a: "\<exists>j. Manager_AddOrder (WriteFails k errno) now mgr x =
             Some (Some (JournallingNewOrder (WriteError errno)), mgr\<lparr>journal := j\<rparr>)" for k errno
    using Append_WriteFails [of ?new k errno "journal mgr"]
    by (auto simp add: Manager_AddOrder_def)
  have b: "\<exists>j. Manager_CancelOrder (WriteFails k errno) now mgr orderID =
             Some (Some (JournallingCancelOrder (WriteError errno)), mgr\<lparr>journal := j\<rparr>)" for k errno
    using Append_WriteFails [of ?cancel k errno "journal mgr"]
    by (auto simp add: Manager_CancelOrder_def)
  have c: "\<exists>r. encodeEvent ?new = Inr r \<and>
      Manager_AddOrder Written now mgr x =
        map_option
          (\<lambda>(code, mm1).
             (if code = ErrorOK then None else Some (EngineAddOrder code),
              mgr\<lparr>journal := (journal mgr)\<lparr>written := written (journal mgr) @ r\<rparr>,
                  mm := mm1\<rparr>))
          (AddOrder (mm mgr) x)"
    using Append_Written [of ?new "journal mgr"]
    by (auto simp add: Manager_AddOrder_def split: option.splits)
  have d: "\<exists>r. encodeEvent ?cancel = Inr r \<and>
      Manager_CancelOrder Written now mgr orderID =
        map_option
          (\<lambda>(code, mm1).
             (if code = ErrorOK then None else Some (EngineCancelOrder code),
              mgr\<lparr>journal := (journal mgr)\<lparr>written := written (journal mgr) @ r\<rparr>,
                  mm := mm1\<rparr>))
          (DeleteOrder (mm mgr) orderID)"
    using Append_Written [of ?cancel "journal mgr"]
    by (auto simp add: Manager_CancelOrder_def split: option.splits)
  from a b c d show ?thesis
    by blast
qed

section \<open>The tree as an ordered index\<close>

text \<open>
  What a tree holds: its levels with their order lists (\<open>nodes\<close>) and their prices (\<open>keys\<close>).
  \<open>before\<close> is the order in which the tree keeps its prices, falling for a descending tree
  and rising otherwise, and \<open>bst\<close> says that every node has the earlier prices on its left
  and the later ones on its right.
\<close>

fun nodes :: "LevelNode \<Rightarrow> (Level \<times> u64 list) set" where
  "nodes NilLevel = {}"
| "nodes (LevelNode lv ol l r b) = insert (lv, ol) (nodes l \<union> nodes r)"

fun keys :: "LevelNode \<Rightarrow> u64 set" where
  "keys NilLevel = {}"
| "keys (LevelNode lv ol l r b) = insert (Level_Price lv) (keys l \<union> keys r)"

definition before :: "bool \<Rightarrow> u64 \<Rightarrow> u64 \<Rightarrow> bool" where
  "before desc a b = (if desc then b < a else a < b)"

fun bst :: "bool \<Rightarrow> LevelNode \<Rightarrow> bool" where
  "bst desc NilLevel = True"
| "bst desc (LevelNode lv ol l r b) =
     (bst desc l \<and> bst desc r \<and> (\<forall>k \<in> keys l. before desc k (Level_Price lv)) \<and>
      (\<forall>k \<in> keys r. before desc (Level_Price lv) k))"

lemma compare_before: "(compare desc a b < 0) = before desc a b"
  by (auto simp add: compare_def before_def)

lemma before_trans: "before desc a b \<Longrightarrow> before desc b c \<Longrightarrow> before desc a c"
  by (auto simp add: before_def split: if_splits)

lemma before_irrefl [simp]: "\<not> before desc a a"
  by (simp add: before_def)

lemma before_total: "a \<noteq> b \<Longrightarrow> \<not> before desc a b \<Longrightarrow> before desc b a"
  by (auto simp add: before_def)

lemma before_asym: "before desc a b \<Longrightarrow> \<not> before desc b a"
  by (auto simp add: before_def split: if_splits)

lemma keys_nodes: "keys t = (\<lambda>x. Level_Price (fst x)) ` nodes t"
  by (induction t) auto

subsection \<open>Rotations keep the nodes and their order\<close>

lemma nodes_rotateLeft [simp]: "nodes (rotateLeft t) = nodes t"
  by (induction t rule: rotateLeft.induct) (auto simp add: Let_def)

lemma nodes_rotateRight [simp]: "nodes (rotateRight t) = nodes t"
  by (induction t rule: rotateRight.induct) (auto simp add: Let_def)

lemma keys_rotateLeft [simp]: "keys (rotateLeft t) = keys t"
  by (simp add: keys_nodes)

lemma keys_rotateRight [simp]: "keys (rotateRight t) = keys t"
  by (simp add: keys_nodes)

lemma bst_rotateLeft: "bst desc t \<Longrightarrow> bst desc (rotateLeft t)"
  by (induction t rule: rotateLeft.induct) (auto simp add: Let_def intro: before_trans)

lemma bst_rotateRight: "bst desc t \<Longrightarrow> bst desc (rotateRight t)"
  by (induction t rule: rotateRight.induct) (auto simp add: Let_def intro: before_trans)

lemma nodes_rebalance [simp]: "nodes (rebalance t) = nodes t"
  by (cases t) auto

lemma keys_rebalance [simp]: "keys (rebalance t) = keys t"
  by (simp add: keys_nodes)

lemma bst_rebalance: "bst desc t \<Longrightarrow> bst desc (rebalance t)"
proof (cases t)
  case NilLevel
  then show ?thesis by simp
next
  case (LevelNode lv ol l r b)
  assume t: "bst desc t"
  have l: "bst desc (LevelNode lv ol (rotateLeft l) r b)"
    using t LevelNode bst_rotateLeft [of desc l] by simp
  have r: "bst desc (LevelNode lv ol l (rotateRight r) b)"
    using t LevelNode bst_rotateRight [of desc r] by simp
  show ?thesis
    using t l r LevelNode bst_rotateLeft bst_rotateRight by simp
qed

lemma nodes_rebalanceInsert [simp]: "nodes (fst (rebalanceInsert t isLeft)) = nodes t"
  by (cases t) (auto simp add: Let_def simp del: rebalance.simps)

lemma bst_rebalanceInsert: "bst desc t \<Longrightarrow> bst desc (fst (rebalanceInsert t isLeft))"
proof (cases t)
  case NilLevel
  then show ?thesis by simp
next
  case (LevelNode lv ol l r b)
  assume t: "bst desc t"
  have "bst desc (LevelNode lv ol l r b')" for b'
    using t LevelNode by simp
  then show ?thesis
    using LevelNode bst_rebalance by (auto simp add: Let_def simp del: rebalance.simps)
qed

lemma nodes_rebalanceRemove [simp]: "nodes (fst (rebalanceRemove t)) = nodes t"
  by (cases t) (auto simp add: Let_def simp del: rebalance.simps height.simps)

lemma bst_rebalanceRemove: "bst desc t \<Longrightarrow> bst desc (fst (rebalanceRemove t))"
proof (cases t)
  case NilLevel
  then show ?thesis by simp
next
  case (LevelNode lv ol l r b)
  assume t: "bst desc t"
  have "bst desc (LevelNode lv ol l r b')" for b'
    using t LevelNode by simp
  then show ?thesis
    using LevelNode bst_rebalance
    by (auto simp add: Let_def simp del: rebalance.simps height.simps)
qed


lemma keys_rebalanceInsert [simp]: "keys (fst (rebalanceInsert t isLeft)) = keys t"
  by (simp add: keys_nodes)

lemma keys_rebalanceRemove [simp]: "keys (fst (rebalanceRemove t)) = keys t"
  by (simp add: keys_nodes)

declare rebalanceInsert.simps [simp del] rebalanceRemove.simps [simp del] rebalance.simps [simp del]

subsection \<open>Insertion\<close>

lemma nodes_insert_from:
  "nodes (fst (insert_from desc level price t)) = nodes level \<union> nodes t"
  by (induction t) (auto split: prod.splits)

lemma keys_insert_from:
  "keys (fst (insert_from desc level price t)) = keys level \<union> keys t"
  by (simp add: keys_nodes nodes_insert_from image_Un)

lemma bst_insert_from:
  assumes "bst desc t" and "price \<notin> keys t" and "bst desc level" and "keys level = {price}"
  shows "bst desc (fst (insert_from desc level price t))"
  using assms(1,2)
proof (induction t)
  case NilLevel
  then show ?case using assms(3) by simp
next
  case (LevelNode lv ol l r b)
  show ?case
  proof (cases "compare desc price (Level_Price lv) < 0")
    case True
    obtain l' grown where l': "insert_from desc level price l = (l', grown)"
      by (cases "insert_from desc level price l")
    have kl: "keys l' = insert price (keys l)"
      using keys_insert_from [of desc level price l] l' assms(4) by simp
    have bl: "bst desc l'"
      using LevelNode l' by simp
    have "bst desc (LevelNode lv ol l' r b)"
      using LevelNode.prems bl kl True by (auto simp add: compare_before)
    then show ?thesis
      using True l' bst_rebalanceInsert [of desc "LevelNode lv ol l' r b" True] by simp
  next
    case False
    obtain r' grown where r': "insert_from desc level price r = (r', grown)"
      by (cases "insert_from desc level price r")
    have kr: "keys r' = insert price (keys r)"
      using keys_insert_from [of desc level price r] r' assms(4) by simp
    have br: "bst desc r'"
      using LevelNode r' by simp
    have "before desc (Level_Price lv) price"
      using False LevelNode.prems(2) before_total [of price "Level_Price lv" desc]
      by (simp add: compare_before)
    then have "bst desc (LevelNode lv ol l r' b)"
      using LevelNode.prems br kr by auto
    then show ?thesis
      using False r' bst_rebalanceInsert [of desc "LevelNode lv ol l r' b" False] by simp
  qed
qed

subsection \<open>Removal\<close>

lemma remove_successor_spec:
  assumes "t \<noteq> NilLevel" and "bst desc t" and "remove_successor t = (s, t', running)"
  shows "nodes t = insert s (nodes t') \<and> bst desc t' \<and> Level_Price (fst s) \<notin> keys t' \<and>
         (\<forall>k \<in> keys t'. before desc (Level_Price (fst s)) k)"
  using assms
proof (induction t arbitrary: s t' running rule: remove_successor.induct)
  case 1
  then show ?case by simp
next
  case (2 lv ol r b)
  then show ?case by (auto dest: before_asym)
next
  case (3 lv ol lv1 ol1 l1 r1 b1 r b)
  define L where "L = LevelNode lv1 ol1 l1 r1 b1"
  obtain s0 l' run0 where rs: "remove_successor L = (s0, l', run0)"
    by (cases "remove_successor L")
  have bL: "bst desc L" and br: "bst desc r"
    and kL: "\<forall>k \<in> keys L. before desc k (Level_Price lv)"
    and kr: "\<forall>k \<in> keys r. before desc (Level_Price lv) k"
    using 3(3) by (auto simp add: L_def)
  have ih: "nodes L = insert s0 (nodes l') \<and> bst desc l' \<and> Level_Price (fst s0) \<notin> keys l' \<and>
         (\<forall>k \<in> keys l'. before desc (Level_Price (fst s0)) k)"
    using 3(1) [of s0 l' run0] rs bL by (simp add: L_def)
  have kl: "keys L = insert (Level_Price (fst s0)) (keys l')"
    using ih by (simp add: keys_nodes)
  let ?n = "LevelNode lv ol l' r b"
  have s: "s = s0" and t': "t' = (if run0 then fst (rebalanceRemove ?n) else ?n)"
    using 3(4) rs by (auto simp add: L_def split: prod.splits if_splits)
  have bn: "bst desc ?n"
    using ih kl kL br kr by auto
  have first: "before desc (Level_Price (fst s0)) (Level_Price lv)"
    using kL kl by auto
  have nn: "nodes (LevelNode lv ol L r b) = insert s0 (nodes ?n)"
    using ih by auto
  have all: "\<forall>k \<in> keys ?n. before desc (Level_Price (fst s0)) k"
    using ih first kr by (auto intro: before_trans)
  then have notin: "Level_Price (fst s0) \<notin> keys ?n"
    using before_irrefl by blast
  show ?case
    unfolding s t' using nn bn all notin bst_rebalanceRemove [OF bn]
    by (auto simp add: L_def simp del: nodes.simps keys.simps bst.simps)
qed

lemma remove_from_spec:
  assumes "bst desc t"
  shows "nodes (fst (remove_from desc price t)) = {x \<in> nodes t. Level_Price (fst x) \<noteq> price} \<and>
         bst desc (fst (remove_from desc price t))"
  using assms
proof (induction t)
  case NilLevel
  then show ?case by simp
next
  case (LevelNode lv ol l r b)
  have bl: "bst desc l" and br: "bst desc r"
    and kl: "\<forall>k \<in> keys l. before desc k (Level_Price lv)"
    and kr: "\<forall>k \<in> keys r. before desc (Level_Price lv) k"
    using LevelNode.prems by auto
  have nl: "price = Level_Price lv \<Longrightarrow> {x \<in> nodes l. Level_Price (fst x) \<noteq> price} = nodes l"
    using kl by (auto simp add: keys_nodes)
  have nr: "price = Level_Price lv \<Longrightarrow> {x \<in> nodes r. Level_Price (fst x) \<noteq> price} = nodes r"
    using kr by (auto simp add: keys_nodes)
  show ?case
  proof (cases "price = Level_Price lv")
    case True
    show ?thesis
    proof (cases "l = NilLevel \<or> r = NilLevel")
      case True
      with \<open>price = Level_Price lv\<close> bl br nl nr show ?thesis
        by auto
    next
      case False
      obtain slv sol r' running where rs: "remove_successor r = ((slv, sol), r', running)"
        by (cases "remove_successor r") auto
      have spec: "nodes r = insert (slv, sol) (nodes r') \<and> bst desc r' \<and> Level_Price slv \<notin> keys r' \<and>
         (\<forall>k \<in> keys r'. before desc (Level_Price slv) k)"
        using remove_successor_spec [OF _ br rs] False by simp
      have sk: "Level_Price slv \<in> keys r"
        using spec by (auto simp add: keys_nodes)
      let ?n = "LevelNode slv sol l r' b"
      have bn: "bst desc ?n"
        using spec bl kl kr sk by (auto intro: before_trans)
      have ne: "Level_Price slv \<noteq> price"
        using kr sk True by auto
      have "nodes ?n = {x \<in> nodes (LevelNode lv ol l r b). Level_Price (fst x) \<noteq> price}"
        using spec nl nr True ne by auto
      moreover have "fst (remove_from desc price (LevelNode lv ol l r b)) =
          (if running then fst (rebalanceRemove ?n) else ?n)"
        using True False rs by simp
      ultimately show ?thesis
        using bn bst_rebalanceRemove [OF bn] by (auto simp del: nodes.simps bst.simps)
    qed
  next
    case False
    show ?thesis
    proof (cases "compare desc price (Level_Price lv) < 0")
      case True
      obtain l' running where rl: "remove_from desc price l = (l', running)"
        by (cases "remove_from desc price l")
      have ih: "nodes l' = {x \<in> nodes l. Level_Price (fst x) \<noteq> price}" "bst desc l'"
        using LevelNode.IH(1) [OF bl] rl by simp_all
      have nr': "{x \<in> nodes r. Level_Price (fst x) \<noteq> price} = nodes r"
        using kr True by (auto simp add: keys_nodes compare_before dest: before_asym)
      let ?n = "LevelNode lv ol l' r b"
      have bn: "bst desc ?n"
        using ih bl br kl kr by (auto simp add: keys_nodes)
      have "nodes ?n = {x \<in> nodes (LevelNode lv ol l r b). Level_Price (fst x) \<noteq> price}"
        using ih nr' False by auto
      moreover have "fst (remove_from desc price (LevelNode lv ol l r b)) =
          (if running then fst (rebalanceRemove ?n) else ?n)"
        using True False rl by simp
      ultimately show ?thesis
        using bn bst_rebalanceRemove [OF bn] by (auto simp del: nodes.simps bst.simps)
    next
      case nlt: False
      obtain r' running where rr: "remove_from desc price r = (r', running)"
        by (cases "remove_from desc price r")
      have ih: "nodes r' = {x \<in> nodes r. Level_Price (fst x) \<noteq> price}" "bst desc r'"
        using LevelNode.IH(2) [OF br] rr by simp_all
      have gt: "before desc (Level_Price lv) price"
        using nlt False before_total [of price "Level_Price lv" desc] by (simp add: compare_before)
      have nl': "{x \<in> nodes l. Level_Price (fst x) \<noteq> price} = nodes l"
        using kl gt by (auto simp add: keys_nodes dest: before_asym)
      let ?n = "LevelNode lv ol l r' b"
      have bn: "bst desc ?n"
        using ih bl br kl kr by (auto simp add: keys_nodes)
      have "nodes ?n = {x \<in> nodes (LevelNode lv ol l r b). Level_Price (fst x) \<noteq> price}"
        using ih nl' False by auto
      moreover have "fst (remove_from desc price (LevelNode lv ol l r b)) =
          (if running then fst (rebalanceRemove ?n) else ?n)"
        using nlt False rr by simp
      ultimately show ?thesis
        using bn bst_rebalanceRemove [OF bn] by (auto simp del: nodes.simps bst.simps)
    qed
  qed
qed

subsection \<open>Reading, writing and searching\<close>

lemma level_at_nodes: "level_at price t = Some x \<Longrightarrow> x \<in> nodes t \<and> Level_Price (fst x) = price"
  by (induction t) (auto split: if_splits option.splits)

lemma level_at_None: "(level_at price t = None) = (price \<notin> keys t)"
  by (induction t) (auto split: option.splits)

lemma bst_unique:
  "bst desc t \<Longrightarrow> x \<in> nodes t \<Longrightarrow> y \<in> nodes t \<Longrightarrow>
   Level_Price (fst x) = Level_Price (fst y) \<Longrightarrow> x = y"
proof (induction t)
  case NilLevel
  then show ?case by simp
next
  case (LevelNode lv ol l r b)
  have bl: "bst desc l" and br: "bst desc r"
    using LevelNode.prems(1) by auto
  have kl: "\<And>z. z \<in> nodes l \<Longrightarrow> before desc (Level_Price (fst z)) (Level_Price lv)"
    and kr: "\<And>z. z \<in> nodes r \<Longrightarrow> before desc (Level_Price lv) (Level_Price (fst z))"
    using LevelNode.prems(1) by (auto simp add: keys_nodes)
  have nl: "\<And>z. z \<in> nodes l \<Longrightarrow> Level_Price (fst z) \<noteq> Level_Price lv"
    using kl before_irrefl by metis
  have nr: "\<And>z. z \<in> nodes r \<Longrightarrow> Level_Price (fst z) \<noteq> Level_Price lv"
    using kr before_irrefl by metis
  have lr: "\<And>z w. z \<in> nodes l \<Longrightarrow> w \<in> nodes r \<Longrightarrow> Level_Price (fst z) \<noteq> Level_Price (fst w)"
  proof
    fix z w assume z: "z \<in> nodes l" and w: "w \<in> nodes r"
      and e: "Level_Price (fst z) = Level_Price (fst w)"
    have "before desc (Level_Price (fst z)) (Level_Price (fst w))"
      using before_trans [OF kl [OF z] kr [OF w]] .
    with e show False by simp
  qed
  consider "x = (lv, ol)" | "x \<in> nodes l" | "x \<in> nodes r"
    using LevelNode.prems(2) by auto
  then show ?case
  proof cases
    case 1
    consider "y = (lv, ol)" | "y \<in> nodes l" | "y \<in> nodes r"
      using LevelNode.prems(3) by auto
    then show ?thesis
    proof cases
      case 1 with \<open>x = (lv, ol)\<close> show ?thesis by simp
    next
      case 2 with \<open>x = (lv, ol)\<close> nl [OF 2] LevelNode.prems(4) show ?thesis by simp
    next
      case 3 with \<open>x = (lv, ol)\<close> nr [OF 3] LevelNode.prems(4) show ?thesis by simp
    qed
  next
    case 2
    consider "y = (lv, ol)" | "y \<in> nodes l" | "y \<in> nodes r"
      using LevelNode.prems(3) by auto
    then show ?thesis
    proof cases
      case 1 with nl [OF 2] LevelNode.prems(4) show ?thesis by simp
    next
      case yl: 2 show ?thesis using LevelNode.IH(1) [OF bl 2 yl LevelNode.prems(4)] .
    next
      case 3 with lr [OF 2 3] LevelNode.prems(4) show ?thesis by simp
    qed
  next
    case 3
    consider "y = (lv, ol)" | "y \<in> nodes l" | "y \<in> nodes r"
      using LevelNode.prems(3) by auto
    then show ?thesis
    proof cases
      case 1 with nr [OF 3] LevelNode.prems(4) show ?thesis by simp
    next
      case 2 with lr [OF 2 3] LevelNode.prems(4) show ?thesis by simp
    next
      case yr: 3 show ?thesis using LevelNode.IH(2) [OF br 3 yr LevelNode.prems(4)] .
    qed
  qed
qed

lemma level_at_bst:
  "bst desc t \<Longrightarrow> x \<in> nodes t \<Longrightarrow> level_at (Level_Price (fst x)) t = Some x"
proof -
  assume b: "bst desc t" and x: "x \<in> nodes t"
  then have "Level_Price (fst x) \<in> keys t"
    by (auto simp add: keys_nodes)
  then obtain y where y: "level_at (Level_Price (fst x)) t = Some y"
    using level_at_None [of "Level_Price (fst x)" t] by auto
  have "y \<in> nodes t" "Level_Price (fst y) = Level_Price (fst x)"
    using level_at_nodes [OF y] by simp_all
  then have "y = x"
    using bst_unique [OF b _ x] by blast
  with y show ?thesis
    by simp
qed

lemma level_at_iff:
  "bst desc t \<Longrightarrow> (level_at price t = Some x) = (x \<in> nodes t \<and> Level_Price (fst x) = price)"
  using level_at_nodes level_at_bst by blast

lemma nodes_level_update:
  assumes "bst desc t" and "\<And>x. Level_Price (fst (f x)) = Level_Price (fst x)"
  shows "nodes (level_update price f t) =
           (\<lambda>x. if Level_Price (fst x) = price then f x else x) ` nodes t"
  using assms(1)
proof (induction t)
  case NilLevel
  then show ?case by simp
next
  case (LevelNode lv ol l r b)
  have kl: "\<And>z. z \<in> nodes l \<Longrightarrow> before desc (Level_Price (fst z)) (Level_Price lv)"
    and kr: "\<And>z. z \<in> nodes r \<Longrightarrow> before desc (Level_Price lv) (Level_Price (fst z))"
    using LevelNode.prems(1) by (auto simp add: keys_nodes)
  show ?case
  proof (cases "Level_Price lv = price")
    case True
    have "\<And>z. z \<in> nodes l \<union> nodes r \<Longrightarrow> Level_Price (fst z) \<noteq> price"
      using kl kr True before_irrefl by (metis Un_iff)
    then have "(\<lambda>x. if Level_Price (fst x) = price then f x else x) ` (nodes l \<union> nodes r) =
               nodes l \<union> nodes r"
      by force
    with True show ?thesis
      by (auto split: prod.splits simp add: image_Un)
  next
    case False
    with LevelNode show ?thesis
      by (auto simp add: image_Un)
  qed
qed

lemma keys_level_update:
  assumes "\<And>x. Level_Price (fst (f x)) = Level_Price (fst x)"
  shows "keys (level_update price f t) = keys t"
proof (induction t)
  case NilLevel
  then show ?case by simp
next
  case (LevelNode lv ol l r b)
  have "Level_Price (fst (f (lv, ol))) = Level_Price lv"
    using assms [of "(lv, ol)"] by simp
  with LevelNode show ?case
    by (cases "f (lv, ol)") auto
qed

lemma bst_level_update:
  assumes "bst desc t" and "\<And>x. Level_Price (fst (f x)) = Level_Price (fst x)"
  shows "bst desc (level_update price f t)"
  using assms(1)
proof (induction t)
  case NilLevel
  then show ?case by simp
next
  case (LevelNode lv ol l r b)
  have bl: "bst desc l" and br: "bst desc r"
    using LevelNode.prems by auto
  have p: "Level_Price (fst (f (lv, ol))) = Level_Price lv"
    using assms(2) [of "(lv, ol)"] by simp
  show ?case
  proof (cases "Level_Price lv = price")
    case True
    with p LevelNode.prems show ?thesis
      by (cases "f (lv, ol)") auto
  next
    case False
    with LevelNode.prems LevelNode.IH(1) [OF bl] LevelNode.IH(2) [OF br] show ?thesis
      by (simp add: keys_level_update [OF assms(2)])
  qed
qed

lemma level_at_level_update:
  assumes "bst desc t" and "\<And>x. Level_Price (fst (f x)) = Level_Price (fst x)"
  shows "level_at q (level_update price f t) =
           (if q = price then map_option f (level_at price t) else level_at q t)"
proof -
  let ?t = "level_update price f t"
  have b: "bst desc ?t"
    using bst_level_update [OF assms] .
  have n: "nodes ?t = (\<lambda>x. if Level_Price (fst x) = price then f x else x) ` nodes t"
    using nodes_level_update [OF assms] .
  show ?thesis
  proof (cases "level_at q t")
    case None
    then have "q \<notin> keys ?t"
      using keys_level_update [OF assms(2), of price t] level_at_None [of q t] by simp
    then show ?thesis
      using None level_at_None [of q ?t] by auto
  next
    case (Some x)
    then have x: "x \<in> nodes t" "Level_Price (fst x) = q"
      using level_at_nodes by auto
    let ?y = "if q = price then f x else x"
    have "?y \<in> nodes ?t"
      using x n by force
    moreover have "Level_Price (fst ?y) = q"
      using x assms(2) by simp
    ultimately have "level_at q ?t = Some ?y"
      using level_at_bst [OF b, of ?y] by simp
    then show ?thesis
      using Some by auto
  qed
qed

lemma find_from_bst:
  "bst desc t \<Longrightarrow> find_from desc price t = (if price \<in> keys t then Some price else None)"
proof (induction t)
  case NilLevel
  then show ?case by simp
next
  case (LevelNode lv ol l r b)
  have kl: "\<And>k. k \<in> keys l \<Longrightarrow> before desc k (Level_Price lv)"
    and kr: "\<And>k. k \<in> keys r \<Longrightarrow> before desc (Level_Price lv) k"
    using LevelNode.prems by auto
  show ?case
  proof (cases "price = Level_Price lv")
    case True
    then show ?thesis by simp
  next
    case False
    show ?thesis
    proof (cases "before desc price (Level_Price lv)")
      case True
      then have "price \<notin> keys r"
        using kr before_asym by blast
      with True False LevelNode show ?thesis
        by (simp add: compare_before)
    next
      case nb: False
      then have "price \<notin> keys l"
        using kl by blast
      with nb False LevelNode show ?thesis
        by (simp add: compare_before)
    qed
  qed
qed

lemma leftmost_None: "(leftmost t = None) = (t = NilLevel)"
  by (induction t rule: leftmost.induct) auto

lemma leftmost_bst:
  "bst desc t \<Longrightarrow> leftmost t = Some p \<Longrightarrow>
   p \<in> keys t \<and> (\<forall>k \<in> keys t. k = p \<or> before desc p k)"
proof (induction t rule: leftmost.induct)
  case 1
  then show ?case by simp
next
  case (2 lv ol r b)
  then show ?case by auto
next
  case (3 lv ol lv1 ol1 l1 r1 b1 r b)
  define L where "L = LevelNode lv1 ol1 l1 r1 b1"
  have bL: "bst desc L" and kL: "\<forall>k \<in> keys L. before desc k (Level_Price lv)"
    and kr: "\<forall>k \<in> keys r. before desc (Level_Price lv) k"
    using 3(2) by (auto simp add: L_def)
  have lm: "leftmost L = Some p"
    using 3(3) by (simp add: L_def)
  have ih: "p \<in> keys L \<and> (\<forall>k \<in> keys L. k = p \<or> before desc p k)"
    using 3(1) bL lm by (simp add: L_def)
  then have "before desc p (Level_Price lv)"
    using kL by blast
  then have "\<forall>k \<in> keys (LevelNode lv ol L r b). k = p \<or> before desc p k"
    using ih kr by (auto intro: before_trans)
  then show ?case
    using ih by (auto simp add: L_def)
qed

subsection \<open>The tree as a store of levels\<close>

text \<open>
  A tree in order, and the level a pointer with a given price reads in it. Insertion, removal
  and a write through a pointer are then updates of a map from prices to levels.
\<close>

definition tree_ok :: "bool \<Rightarrow> AVLTree \<Rightarrow> bool" where
  "tree_ok desc t = (descending t = desc \<and> bst desc (root t))"

definition tree_at :: "AVLTree \<Rightarrow> u64 \<Rightarrow> (Level \<times> u64 list) option" where
  "tree_at t q = level_at q (root t)"

lemma tree_at_price: "tree_at t q = Some (lv, ol) \<Longrightarrow> Level_Price lv = q"
  using level_at_nodes [of q "root t" "(lv, ol)"] by (simp add: tree_at_def)

lemma option_eqI: "(\<And>x. (a = Some x) = (b = Some x)) \<Longrightarrow> a = b"
  by (cases a; cases b) auto

lemma tree_ok_NewAVLTree [simp]: "tree_ok desc (NewAVLTree desc)"
  by (simp add: tree_ok_def NewAVLTree_def)

lemma tree_at_NewAVLTree [simp]: "tree_at (NewAVLTree desc) q = None"
  by (simp add: tree_at_def NewAVLTree_def)

lemma Insert_store:
  assumes "tree_ok desc t" and "tree_at t p = None"
  shows "tree_ok desc (Insert t (NewLevelNode ty p))"
    and "tree_at (Insert t (NewLevelNode ty p)) q =
           (if q = p then Some (NewLevel ty p, []) else tree_at t q)"
proof -
  let ?new = "NewLevelNode ty p"
  let ?r = "fst (insert_from desc ?new p (root t))"
  have d: "descending t = desc" and b: "bst desc (root t)"
    using assms(1) by (simp_all add: tree_ok_def)
  have pk: "p \<notin> keys (root t)"
    using assms(2) level_at_None [of p "root t"] by (simp add: tree_at_def)
  have np: "node_price ?new = p"
    by (simp add: NewLevelNode_def NewLevel_def)
  have r: "root (Insert t ?new) = ?r" "descending (Insert t ?new) = desc"
    using d np by (simp_all add: Insert_def)
  have bn: "bst desc ?new" "keys ?new = {p}" "nodes ?new = {(NewLevel ty p, [])}"
    by (simp_all add: NewLevelNode_def NewLevel_def)
  have b': "bst desc ?r"
    using bst_insert_from [OF b pk bn(1,2)] .
  show "tree_ok desc (Insert t ?new)"
    using r b' by (simp add: tree_ok_def)
  have n: "nodes ?r = insert (NewLevel ty p, []) (nodes (root t))"
    using nodes_insert_from [of desc ?new p "root t"] bn(3) by simp
  have pn: "Level_Price (NewLevel ty p) = p"
    by (simp add: NewLevel_def)
  show "tree_at (Insert t ?new) q = (if q = p then Some (NewLevel ty p, []) else tree_at t q)"
  proof (rule option_eqI)
    fix x
    have "(level_at q ?r = Some x) = (x \<in> nodes ?r \<and> Level_Price (fst x) = q)"
      using level_at_iff [OF b'] .
    also have "\<dots> = ((x = (NewLevel ty p, []) \<and> q = p) \<or> (x \<in> nodes (root t) \<and> Level_Price (fst x) = q))"
      using n pn by auto
    also have "\<dots> = ((if q = p then Some (NewLevel ty p, []) else level_at q (root t)) = Some x)"
      using level_at_iff [OF b, of q x] pk by (auto simp add: keys_nodes)
    finally show "(tree_at (Insert t ?new) q = Some x) =
        ((if q = p then Some (NewLevel ty p, []) else tree_at t q) = Some x)"
      using r by (simp add: tree_at_def)
  qed
qed

lemma Remove_store:
  assumes "tree_ok desc t"
  shows "tree_ok desc (Remove t (Some p))"
    and "tree_at (Remove t (Some p)) q = (if q = p then None else tree_at t q)"
proof -
  let ?r = "fst (remove_from desc p (root t))"
  have d: "descending t = desc" and b: "bst desc (root t)"
    using assms(1) by (simp_all add: tree_ok_def)
  have r: "root (Remove t (Some p)) = ?r" "descending (Remove t (Some p)) = desc"
    using d by (simp_all add: Remove_def)
  have spec: "nodes ?r = {x \<in> nodes (root t). Level_Price (fst x) \<noteq> p}" "bst desc ?r"
    using remove_from_spec [OF b, of p] by simp_all
  show "tree_ok desc (Remove t (Some p))"
    using r spec by (simp add: tree_ok_def)
  show "tree_at (Remove t (Some p)) q = (if q = p then None else tree_at t q)"
  proof (rule option_eqI)
    fix x
    have "(level_at q ?r = Some x) = (x \<in> nodes ?r \<and> Level_Price (fst x) = q)"
      using level_at_iff [OF spec(2)] .
    also have "\<dots> = (q \<noteq> p \<and> x \<in> nodes (root t) \<and> Level_Price (fst x) = q)"
      using spec(1) by auto
    also have "\<dots> = ((if q = p then None else level_at q (root t)) = Some x)"
      using level_at_iff [OF b, of q x] by auto
    finally show "(tree_at (Remove t (Some p)) q = Some x) =
        ((if q = p then None else tree_at t q) = Some x)"
      using r by (simp add: tree_at_def)
  qed
qed

lemma update_store:
  assumes "tree_ok desc t" and "\<And>x. Level_Price (fst (f x)) = Level_Price (fst x)"
  shows "tree_ok desc (t\<lparr>root := level_update p f (root t)\<rparr>)"
    and "tree_at (t\<lparr>root := level_update p f (root t)\<rparr>) q =
           (if q = p then map_option f (tree_at t p) else tree_at t q)"
  using assms bst_level_update [of desc "root t" f p] level_at_level_update [of desc "root t" f q p]
  by (simp_all add: tree_ok_def tree_at_def)

lemma Find_store:
  assumes "tree_ok desc t"
  shows "Find t p = (if tree_at t p = None then None else Some p)"
  using assms find_from_bst [of desc "root t" p] level_at_None [of p "root t"]
  by (simp add: tree_ok_def Find_def tree_at_def)

text \<open>The first level of a tree is the one whose price comes before every other price.\<close>

definition is_first :: "bool \<Rightarrow> AVLTree \<Rightarrow> u64 option \<Rightarrow> bool" where
  "is_first desc t v =
     (case v of
        None \<Rightarrow> (\<forall>q. tree_at t q = None)
      | Some p \<Rightarrow> tree_at t p \<noteq> None \<and> (\<forall>q. tree_at t q \<noteq> None \<longrightarrow> q = p \<or> before desc p q))"

lemma is_first_unique: "is_first desc t v \<Longrightarrow> is_first desc t w \<Longrightarrow> v = w"
  by (cases v; cases w) (auto simp add: is_first_def dest: before_asym)

lemma First_is_first:
  assumes "tree_ok desc t"
  shows "is_first desc t (First t)"
proof (cases "First t")
  case None
  then have "root t = NilLevel"
    using leftmost_None by (simp add: First_def)
  then show ?thesis
    using None by (simp add: is_first_def tree_at_def)
next
  case (Some p)
  have b: "bst desc (root t)"
    using assms by (simp add: tree_ok_def)
  have "p \<in> keys (root t) \<and> (\<forall>k \<in> keys (root t). k = p \<or> before desc p k)"
    using leftmost_bst [OF b] Some by (simp add: First_def)
  then show ?thesis
    using Some level_at_None [of _ "root t"] by (auto simp add: is_first_def tree_at_def)
qed

lemma First_eq: "tree_ok desc t \<Longrightarrow> is_first desc t v \<Longrightarrow> First t = v"
  using First_is_first is_first_unique by blast

subsection \<open>The book as a store of levels\<close>

text \<open>
  The direction of each of the six trees, as \<^verbatim>\<open>NewOrderBook\<close> sets it. A book is in order
  when each tree is, and each best-price pointer is \<^verbatim>\<open>nil\<close> for an empty tree and otherwise
  points into its own tree, to the first level.
\<close>

fun desc_of :: "LevelIndex \<Rightarrow> bool" where
  "desc_of Bids = True"
| "desc_of Asks = False"
| "desc_of BuyStops = False"
| "desc_of SellStops = True"
| "desc_of TrailingBuyStops = False"
| "desc_of TrailingSellStops = True"

definition book_ok :: "OrderBook \<Rightarrow> bool" where
  "book_ok ob =
     (\<forall>i. tree_ok (desc_of i) (tree_of ob i) \<and>
          is_first (desc_of i) (tree_of ob i) (map_option snd (best_of ob i)) \<and>
          (\<forall>r. best_of ob i = Some r \<longrightarrow> fst r = i))"

lemma improves_before: "improves i p b = before (desc_of i) p b"
  by (cases i) (simp_all add: before_def)

lemma tree_of_set_tree [simp]: "tree_of (set_tree i t ob) j = (if i = j then t else tree_of ob j)"
  by (cases i; cases j) simp_all

lemma best_of_set_tree [simp]: "best_of (set_tree i t ob) j = best_of ob j"
  by (cases i; cases j) simp_all

lemma tree_of_set_best [simp]: "tree_of (set_best i v ob) j = tree_of ob j"
  by (cases i; cases j) simp_all

lemma best_of_set_best [simp]: "best_of (set_best i v ob) j = (if i = j then v else best_of ob j)"
  by (cases i; cases j) simp_all

lemma symbol_set_tree [simp]: "symbol (set_tree i t ob) = symbol ob"
  by (cases i) simp_all

lemma symbol_set_best [simp]: "symbol (set_best i v ob) = symbol ob"
  by (cases i) simp_all

lemma deref_tree_at: "deref ob (i, q) = tree_at (tree_of ob i) q"
  by (simp add: deref_def tree_at_def)

lemma deref_price: "deref ob r = Some (lv, ol) \<Longrightarrow> Level_Price lv = snd r"
  using tree_at_price [of "tree_of ob (fst r)" "snd r" lv ol] by (simp add: deref_def tree_at_def)

lemma book_okI:
  assumes "\<And>i. tree_ok (desc_of i) (tree_of ob i)"
    and "\<And>i. is_first (desc_of i) (tree_of ob i) (map_option snd (best_of ob i))"
    and "\<And>i r. best_of ob i = Some r \<Longrightarrow> fst r = i"
  shows "book_ok ob"
  using assms by (simp add: book_ok_def)

lemma book_ok_tree: "book_ok ob \<Longrightarrow> tree_ok (desc_of i) (tree_of ob i)"
  by (simp add: book_ok_def)

lemma book_ok_first:
  "book_ok ob \<Longrightarrow> is_first (desc_of i) (tree_of ob i) (map_option snd (best_of ob i))"
  by (simp add: book_ok_def)

lemma book_ok_fst: "book_ok ob \<Longrightarrow> best_of ob i = Some r \<Longrightarrow> fst r = i"
  unfolding book_ok_def by blast

lemma tree_of_NewOrderBook [simp]: "tree_of (NewOrderBook symb) i = NewAVLTree (desc_of i)"
  by (cases i; simp add: NewOrderBook_def)

lemma best_of_NewOrderBook [simp]: "best_of (NewOrderBook symb) i = None"
  by (cases i; simp add: NewOrderBook_def)

lemma book_ok_NewOrderBook [simp]: "book_ok (NewOrderBook symb)"
  by (rule book_okI) (simp_all add: is_first_def)

lemma deref_NewOrderBook [simp]: "deref (NewOrderBook symb) r = None"
  by (cases r) (simp add: deref_tree_at)

lemma best_of_present:
  assumes "book_ok ob" and "best_of ob i = Some r"
  shows "fst r = i" and "deref ob r \<noteq> None"
proof -
  show f: "fst r = i"
    using book_ok_fst [OF assms] .
  have "tree_at (tree_of ob i) (snd r) \<noteq> None"
    using book_ok_first [OF assms(1), of i] assms(2) by (simp add: is_first_def)
  then show "deref ob r \<noteq> None"
    using f by (cases r) (simp add: deref_tree_at)
qed

lemma best_of_None:
  assumes "book_ok ob" and "best_of ob i = None"
  shows "deref ob (i, q) = None"
  using book_ok_first [OF assms(1), of i] assms(2) by (simp add: is_first_def deref_tree_at)

lemma best_of_first:
  assumes "book_ok ob" and "best_of ob i = Some (j, p)" and "deref ob (i, q) \<noteq> None"
  shows "q = p \<or> before (desc_of i) p q"
  using book_ok_first [OF assms(1), of i] assms(2,3) by (simp add: is_first_def deref_tree_at)

lemma assign_store_pair:
  assumes "book_ok ob" and "\<And>x. Level_Price (fst (f x)) = Level_Price (fst x)"
  shows "book_ok (assign (j, p) f ob)"
    and "deref (assign (j, p) f ob) r =
           (if r = (j, p) then map_option f (deref ob (j, p)) else deref ob r)"
    and "best_of (assign (j, p) f ob) i = best_of ob i"
    and "symbol (assign (j, p) f ob) = symbol ob"
proof -
  let ?t = "tree_of ob j"
  let ?t' = "?t\<lparr>root := level_update p f (root ?t)\<rparr>"
  have ok: "tree_ok (desc_of j) ?t"
    using assms(1) by (rule book_ok_tree)
  have t': "tree_ok (desc_of j) ?t'"
    and at: "\<And>q. tree_at ?t' q = (if q = p then map_option f (tree_at ?t p) else tree_at ?t q)"
    using update_store [OF ok assms(2)] by simp_all
  have none: "\<And>q. (tree_at ?t' q = None) = (tree_at ?t q = None)"
    using at by simp
  have tr: "\<And>k. tree_of (assign (j, p) f ob) k = (if k = j then ?t' else tree_of ob k)"
    by (auto simp add: assign_def)
  show b: "\<And>i. best_of (assign (j, p) f ob) i = best_of ob i"
    by (simp add: assign_def)
  show "symbol (assign (j, p) f ob) = symbol ob"
    by (simp add: assign_def)
  show "deref (assign (j, p) f ob) r =
          (if r = (j, p) then map_option f (deref ob (j, p)) else deref ob r)"
  proof (cases r)
    case (Pair k q)
    then show ?thesis
      unfolding Pair deref_tree_at tr using at by auto
  qed
  have fi: "is_first (desc_of j) ?t' v = is_first (desc_of j) ?t v" for v
    by (simp add: is_first_def none split: option.splits)
  show "book_ok (assign (j, p) f ob)"
  proof (rule book_okI)
    fix k
    show "tree_ok (desc_of k) (tree_of (assign (j, p) f ob) k)"
      using t' book_ok_tree [OF assms(1), of k] by (auto simp add: tr)
    show "is_first (desc_of k) (tree_of (assign (j, p) f ob) k)
            (map_option snd (best_of (assign (j, p) f ob) k))"
      using fi book_ok_first [OF assms(1), of k] by (auto simp add: tr b)
  next
    fix k r
    assume "best_of (assign (j, p) f ob) k = Some r"
    then show "fst r = k"
      using book_ok_fst [OF assms(1)] by (simp add: b)
  qed
qed

lemma assign_store:
  assumes "book_ok ob" and "\<And>x. Level_Price (fst (f x)) = Level_Price (fst x)"
  shows "book_ok (assign ref f ob)"
    and "deref (assign ref f ob) r = (if r = ref then map_option f (deref ob ref) else deref ob r)"
    and "best_of (assign ref f ob) i = best_of ob i"
    and "symbol (assign ref f ob) = symbol ob"
  using assign_store_pair [OF assms, of "fst ref" "snd ref"] by simp_all

lemma AddLevel_store:
  assumes "book_ok ob" and "deref ob (index_of x, routing_price x) = None"
    and "AddLevel ob x = (ob', ref)"
  shows "ref = (index_of x, routing_price x)"
    and "book_ok ob'"
    and "deref ob' r =
           (if r = ref
            then Some (NewLevel (if IsBuy x then LevelTypeBid else LevelTypeAsk) (routing_price x), [])
            else deref ob r)"
    and "symbol ob' = symbol ob"
proof -
  let ?i = "index_of x" and ?p = "routing_price x"
  let ?ty = "if IsBuy x then LevelTypeBid else LevelTypeAsk"
  let ?t = "tree_of ob ?i"
  let ?t' = "Insert ?t (NewLevelNode ?ty ?p)"
  let ?b = "case best_of ob ?i of
              None \<Rightarrow> Some (?i, ?p)
            | Some best \<Rightarrow> if improves ?i ?p (snd best) then Some (?i, ?p) else Some best"
  have ok: "tree_ok (desc_of ?i) ?t"
    using assms(1) by (rule book_ok_tree)
  have none: "tree_at ?t ?p = None"
    using assms(2) by (simp add: deref_tree_at)
  have t': "tree_ok (desc_of ?i) ?t'"
    and at: "\<And>q. tree_at ?t' q = (if q = ?p then Some (NewLevel ?ty ?p, []) else tree_at ?t q)"
    using Insert_store [OF ok none] by simp_all
  have ob': "ob' = fst (AddLevel ob x)" and ref: "ref = (?i, ?p)"
    using assms(3) by (auto simp add: AddLevel_def Let_def)
  have tr: "\<And>k. tree_of ob' k = (if k = ?i then ?t' else tree_of ob k)"
    unfolding ob' by (auto simp add: AddLevel_def Let_def split: option.splits)
  have be: "\<And>k. best_of ob' k = (if k = ?i then ?b else best_of ob k)"
    unfolding ob' by (auto simp add: AddLevel_def Let_def split: option.splits)
  show "ref = (?i, ?p)"
    using ref .
  show "symbol ob' = symbol ob"
    unfolding ob' by (auto simp add: AddLevel_def Let_def split: option.splits)
  show "deref ob' r = (if r = ref then Some (NewLevel ?ty ?p, []) else deref ob r)"
  proof (cases r)
    case (Pair k q)
    then show ?thesis
      unfolding Pair ref deref_tree_at tr using at by auto
  qed
  have old: "is_first (desc_of ?i) ?t (map_option snd (best_of ob ?i))"
    using assms(1) by (rule book_ok_first)
  have new: "is_first (desc_of ?i) ?t' (map_option snd ?b)"
  proof (cases "best_of ob ?i")
    case None
    with old show ?thesis
      by (simp add: is_first_def at)
  next
    case (Some best)
    have bp: "tree_at ?t (snd best) \<noteq> None"
      and bf: "\<And>q. tree_at ?t q \<noteq> None \<Longrightarrow> q = snd best \<or> before (desc_of ?i) (snd best) q"
      using old Some by (auto simp add: is_first_def)
    have ne: "snd best \<noteq> ?p"
      using bp none by auto
    show ?thesis
    proof (cases "before (desc_of ?i) ?p (snd best)")
      case True
      have "q = ?p \<or> before (desc_of ?i) ?p q" if "tree_at ?t q \<noteq> None" for q
        using bf [OF that] True before_trans by blast
      then show ?thesis
        using Some True by (auto simp add: is_first_def at improves_before)
    next
      case False
      then have "before (desc_of ?i) (snd best) ?p"
        using ne before_total by blast
      then show ?thesis
        using Some False bp bf ne by (simp add: is_first_def at improves_before)
    qed
  qed
  show "book_ok ob'"
  proof (rule book_okI)
    fix k
    show "tree_ok (desc_of k) (tree_of ob' k)"
      using t' book_ok_tree [OF assms(1), of k] by (auto simp add: tr)
    show "is_first (desc_of k) (tree_of ob' k) (map_option snd (best_of ob' k))"
      using new book_ok_first [OF assms(1), of k] by (auto simp add: tr be)
  next
    fix k r
    assume "best_of ob' k = Some r"
    then show "fst r = k"
      using book_ok_fst [OF assms(1), of k] by (auto simp add: be split: option.splits if_splits)
  qed
qed

lemma DeleteLevel_store:
  assumes "book_ok ob" and "Level n = Some (index_of (Order n), p)"
  shows "book_ok (DeleteLevel ob n)"
    and "deref (DeleteLevel ob n) r =
           (if r = (index_of (Order n), p) then None else deref ob r)"
    and "symbol (DeleteLevel ob n) = symbol ob"
proof -
  let ?i = "index_of (Order n)"
  let ?t = "tree_of ob ?i"
  let ?t' = "Remove ?t (Some p)"
  let ?b = "if best_of ob ?i = Some (?i, p) then map_option (Pair ?i) (First ?t') else best_of ob ?i"
  have ok: "tree_ok (desc_of ?i) ?t"
    using assms(1) by (rule book_ok_tree)
  have t': "tree_ok (desc_of ?i) ?t'"
    and at: "\<And>q. tree_at ?t' q = (if q = p then None else tree_at ?t q)"
    using Remove_store [OF ok] by simp_all
  have tr: "\<And>k. tree_of (DeleteLevel ob n) k = (if k = ?i then ?t' else tree_of ob k)"
    using assms(2) by (auto simp add: DeleteLevel_def Let_def)
  have be: "\<And>k. best_of (DeleteLevel ob n) k = (if k = ?i then ?b else best_of ob k)"
    using assms(2) by (auto simp add: DeleteLevel_def Let_def)
  show "symbol (DeleteLevel ob n) = symbol ob"
    by (simp add: DeleteLevel_def Let_def)
  show "deref (DeleteLevel ob n) r = (if r = (?i, p) then None else deref ob r)"
  proof (cases r)
    case (Pair k q)
    then show ?thesis
      unfolding Pair deref_tree_at tr using at by auto
  qed
  have old: "is_first (desc_of ?i) ?t (map_option snd (best_of ob ?i))"
    using assms(1) by (rule book_ok_first)
  have new: "is_first (desc_of ?i) ?t' (map_option snd ?b)"
  proof (cases "best_of ob ?i = Some (?i, p)")
    case True
    have "map_option snd (map_option (Pair ?i) (First ?t')) = First ?t'"
      by (cases "First ?t'") simp_all
    then show ?thesis
      using True First_is_first [OF t'] by simp
  next
    case False
    show ?thesis
    proof (cases "best_of ob ?i")
      case None
      with old False show ?thesis
        by (simp add: is_first_def at)
    next
      case (Some best)
      then have "snd best \<noteq> p"
        using False book_ok_fst [OF assms(1) Some] by (cases best) auto
      with old Some False show ?thesis
        by (simp add: is_first_def at)
    qed
  qed
  show "book_ok (DeleteLevel ob n)"
  proof (rule book_okI)
    fix k
    show "tree_ok (desc_of k) (tree_of (DeleteLevel ob n) k)"
      using t' book_ok_tree [OF assms(1), of k] by (auto simp add: tr)
    show "is_first (desc_of k) (tree_of (DeleteLevel ob n) k)
            (map_option snd (best_of (DeleteLevel ob n) k))"
      using new book_ok_first [OF assms(1), of k] by (auto simp add: tr be)
  next
    fix k r
    assume "best_of (DeleteLevel ob n) k = Some r"
    then show "fst r = k"
      using book_ok_fst [OF assms(1), of k] by (auto simp add: be split: option.splits if_splits)
  qed
qed

subsection \<open>The orders of a level\<close>

text \<open>
  The order list a level pointer reads, and the level an order belongs to by its type, side
  and price.
\<close>

definition ids_at :: "OrderBook \<Rightarrow> LevelRef \<Rightarrow> u64 list option" where
  "ids_at ob r = map_option snd (deref ob r)"

definition home :: "OrderNode \<Rightarrow> LevelRef" where
  "home n = (index_of (Order n), routing_price (Order n))"

lemma ids_at_None: "(ids_at ob r = None) = (deref ob r = None)"
  by (simp add: ids_at_def)

lemma ids_at_NewOrderBook [simp]: "ids_at (NewOrderBook symb) r = None"
  by (simp add: ids_at_def)

lemma OrderBook_AddOrder_store:
  assumes "book_ok ob" and "OrderBook_AddOrder ob p n = (ob', n')"
  shows "book_ok ob'"
    and "Order n' = Order n"
    and "Level n' = Some (home n)"
    and "ids_at ob' r =
           (if r = home n
            then Some ((case ids_at ob (home n) of None \<Rightarrow> [] | Some ol \<Rightarrow> ol) @ [p])
            else ids_at ob r)"
proof -
  let ?i = "index_of (Order n)" and ?q = "routing_price (Order n)"
  let ?f = "\<lambda>(lv, ol).
              (lv\<lparr>TotalVolume := TotalVolume lv + LeavesQuantity (Order n),
                  HiddenVolume := HiddenVolume lv + HiddenQuantity (Order n),
                  VisibleVolume := VisibleVolume lv + VisibleQuantity (Order n),
                  Orders := Orders lv + 1\<rparr>,
               ol @ [p])"
  have f: "\<And>x. Level_Price (fst (?f x)) = Level_Price (fst x)"
    by (simp add: split_def)
  have sf: "\<And>x. snd (?f x) = snd x @ [p]"
    by (simp add: split_def)
  have ok: "tree_ok (desc_of ?i) (tree_of ob ?i)"
    using assms(1) by (rule book_ok_tree)
  have find: "Find (tree_of ob ?i) ?q = (if deref ob (?i, ?q) = None then None else Some ?q)"
    using Find_store [OF ok] by (simp add: deref_tree_at)
  obtain ob1 where ob1: "ob1 = (if deref ob (?i, ?q) = None then fst (AddLevel ob (Order n)) else ob)"
    by simp
  have lvl: "(case Find (tree_of ob ?i) ?q of
               None \<Rightarrow> AddLevel ob (Order n)
             | Some q \<Rightarrow> (ob, (?i, q))) = (ob1, (?i, ?q))"
    unfolding find ob1 by (simp add: AddLevel_def Let_def)
  have res: "ob' = assign (?i, ?q) ?f ob1" "n' = n\<lparr>Level := Some (?i, ?q)\<rparr>"
    using assms(2) unfolding OrderBook_AddOrder_def Let_def lvl by simp_all
  show "Order n' = Order n" "Level n' = Some (home n)"
    by (simp_all add: res home_def)
  have al: "AddLevel ob (Order n) = (fst (AddLevel ob (Order n)), (?i, ?q))"
    by (simp add: AddLevel_def Let_def)
  have ok1: "book_ok ob1"
  proof (cases "deref ob (?i, ?q) = None")
    case True
    then show ?thesis
      using AddLevel_store(2) [OF assms(1) True al] by (simp add: ob1)
  next
    case False
    then show ?thesis
      using assms(1) by (auto simp add: ob1)
  qed
  have d1: "ids_at ob1 r = (if r = (?i, ?q) \<and> deref ob (?i, ?q) = None then Some [] else ids_at ob r)"
    for r
  proof (cases "deref ob (?i, ?q) = None")
    case True
    have "deref ob1 r =
            (if r = (?i, ?q)
             then Some (NewLevel (if IsBuy (Order n) then LevelTypeBid else LevelTypeAsk) ?q, [])
             else deref ob r)"
      using AddLevel_store(3) [OF assms(1) True al] True by (simp add: ob1)
    then show ?thesis
      using True by (simp add: ids_at_def)
  next
    case False
    then show ?thesis
      by (auto simp add: ob1)
  qed
  show "book_ok ob'"
    unfolding res using assign_store_pair(1) [OF ok1 f] .
  have "ids_at ob' r = (if r = (?i, ?q) then map_option (\<lambda>ol. ol @ [p]) (ids_at ob1 (?i, ?q)) else ids_at ob1 r)"
    unfolding res ids_at_def assign_store_pair(2) [OF ok1 f]
    by (simp add: option.map_comp comp_def sf)
  then show "ids_at ob' r =
           (if r = home n
            then Some ((case ids_at ob (home n) of None \<Rightarrow> [] | Some ol \<Rightarrow> ol) @ [p])
            else ids_at ob r)"
    unfolding home_def d1 by (auto simp add: ids_at_def split: option.splits)
qed

lemma OrderBook_ReduceOrder_store:
  assumes "book_ok ob" and "Level n = Some r" and "deref ob r \<noteq> None"
  shows "\<exists>ob'. OrderBook_ReduceOrder ob n quantity hidden visible = Some ob' \<and> book_ok ob' \<and>
           (\<forall>s. ids_at ob' s = ids_at ob s)"
proof -
  let ?f = "\<lambda>(lv, ol).
              (lv\<lparr>TotalVolume := TotalVolume lv - quantity,
                  HiddenVolume := HiddenVolume lv - hidden,
                  VisibleVolume := VisibleVolume lv - visible\<rparr>,
               ol)"
  have f: "\<And>x. Level_Price (fst (?f x)) = Level_Price (fst x)"
    by (simp add: split_def)
  have sf: "\<And>x. snd (?f x) = snd x"
    by (simp add: split_def)
  have "OrderBook_ReduceOrder ob n quantity hidden visible = Some (assign r ?f ob)"
    using assms(2,3) by (auto simp add: OrderBook_ReduceOrder_def)
  moreover have "book_ok (assign r ?f ob)"
    using assign_store(1) [OF assms(1) f] .
  moreover have "ids_at (assign r ?f ob) s = ids_at ob s" for s
    unfolding ids_at_def assign_store(2) [OF assms(1) f]
    by (simp add: option.map_comp comp_def sf)
  ultimately show ?thesis
    by blast
qed

lemma OrderBook_DeleteOrder_store:
  assumes "book_ok ob" and "Level n = Some (home n)" and "ids_at ob (home n) = Some ol"
  shows "\<exists>ob' n'. OrderBook_DeleteOrder ob p n = Some (ob', n') \<and> book_ok ob' \<and>
           Order n' = Order n \<and> Level n' = None \<and>
           (\<forall>s. ids_at ob' s =
                  (if s = home n then (if remove1 p ol = [] then None else Some (remove1 p ol))
                   else ids_at ob s))"
proof -
  let ?f = "\<lambda>(lv, ol).
              (lv\<lparr>TotalVolume := TotalVolume lv - LeavesQuantity (Order n),
                  HiddenVolume := HiddenVolume lv - HiddenQuantity (Order n),
                  VisibleVolume := VisibleVolume lv - VisibleQuantity (Order n),
                  Orders := Orders lv - 1\<rparr>,
               remove1 p ol)"
  have f: "\<And>x. Level_Price (fst (?f x)) = Level_Price (fst x)"
    by (simp add: split_def)
  have sf: "\<And>x. snd (?f x) = remove1 p (snd x)"
    by (simp add: split_def)
  obtain lv0 where d: "deref ob (home n) = Some (lv0, ol)"
    using assms(3) by (auto simp add: ids_at_def)
  let ?ob1 = "assign (home n) ?f ob"
  let ?ob2 = "if remove1 p ol = [] then DeleteLevel ?ob1 n else ?ob1"
  have res: "OrderBook_DeleteOrder ob p n = Some (?ob2, n\<lparr>Level := None\<rparr>)"
    using assms(2) d by (simp add: OrderBook_DeleteOrder_def Let_def)
  have ok1: "book_ok ?ob1"
    using assign_store(1) [OF assms(1) f] .
  have i1: "ids_at ?ob1 s = (if s = home n then Some (remove1 p ol) else ids_at ob s)" for s
    unfolding ids_at_def assign_store(2) [OF assms(1) f]
    using d by (simp add: option.map_comp comp_def sf)
  have lv: "Level n = Some (index_of (Order n), routing_price (Order n))"
    using assms(2) by (simp add: home_def)
  have ok2: "book_ok ?ob2"
    using ok1 DeleteLevel_store(1) [OF ok1 lv] by simp
  have i2: "ids_at ?ob2 s =
              (if s = home n then (if remove1 p ol = [] then None else Some (remove1 p ol))
               else ids_at ob s)" for s
  proof (cases "remove1 p ol = []")
    case True
    then show ?thesis
      using DeleteLevel_store(2) [OF ok1 lv, of s] i1 [of s]
      by (simp add: ids_at_def home_def)
  next
    case False
    then show ?thesis
      using i1 [of s] by simp
  qed
  show ?thesis
    using res ok2 i2 by simp
qed

subsection \<open>The registry and the lists of the levels\<close>

text \<open>
  The registry \<open>os\<close> and the order lists \<open>L\<close> of the levels of all books agree: an order is
  registered under its own id, points to its level and is in the list of that level of the
  book of its symbol; a list is not empty, has no order twice, and holds registered orders of
  that book and level only.
\<close>

definition reg_ok :: "(u64 \<rightharpoonup> OrderNode) \<Rightarrow> (u32 \<Rightarrow> LevelRef \<Rightarrow> u64 list option) \<Rightarrow> bool" where
  "reg_ok os L =
     ((\<forall>k n. os k = Some n \<longrightarrow>
         ID (Order n) = k \<and> Level n = Some (home n) \<and>
         (\<exists>ol. L (SymbolID (Order n)) (home n) = Some ol \<and> k \<in> set ol)) \<and>
      (\<forall>s r ol. L s r = Some ol \<longrightarrow>
         ol \<noteq> [] \<and> distinct ol \<and>
         (\<forall>k \<in> set ol. \<exists>n. os k = Some n \<and> SymbolID (Order n) = s \<and> home n = r)))"

lemma reg_okI:
  assumes "\<And>k n. os k = Some n \<Longrightarrow> ID (Order n) = k \<and> Level n = Some (home n) \<and>
             (\<exists>ol. L (SymbolID (Order n)) (home n) = Some ol \<and> k \<in> set ol)"
    and "\<And>s r ol. L s r = Some ol \<Longrightarrow> ol \<noteq> [] \<and> distinct ol \<and>
             (\<forall>k \<in> set ol. \<exists>n. os k = Some n \<and> SymbolID (Order n) = s \<and> home n = r)"
  shows "reg_ok os L"
  unfolding reg_ok_def using assms by blast

lemma reg_ok_node:
  assumes "reg_ok os L" and "os k = Some n"
  shows "ID (Order n) = k" and "Level n = Some (home n)"
    and "\<exists>ol. L (SymbolID (Order n)) (home n) = Some ol \<and> k \<in> set ol"
  using assms unfolding reg_ok_def by blast+

lemma reg_ok_list:
  assumes "reg_ok os L" and "L s r = Some ol"
  shows "ol \<noteq> []" and "distinct ol"
    and "\<And>k. k \<in> set ol \<Longrightarrow> \<exists>n. os k = Some n \<and> SymbolID (Order n) = s \<and> home n = r"
  using assms unfolding reg_ok_def by blast+

lemma reg_ok_empty [simp]: "reg_ok Map.empty (\<lambda>s r. None)"
  by (simp add: reg_ok_def)

lemma reg_insert:
  assumes ok: "reg_ok os L" and new: "os k = None"
    and n: "ID (Order n) = k" "Level n = Some (home n)"
    and L': "\<And>s r. L' s r =
               (if s = SymbolID (Order n) \<and> r = home n
                then Some ((case L s r of None \<Rightarrow> [] | Some ol \<Rightarrow> ol) @ [k])
                else L s r)"
  shows "reg_ok (os(k \<mapsto> n)) L'"
proof (rule reg_okI)
  fix j x
  assume a: "(os(k \<mapsto> n)) j = Some x"
  show "ID (Order x) = j \<and> Level x = Some (home x) \<and>
        (\<exists>ol. L' (SymbolID (Order x)) (home x) = Some ol \<and> j \<in> set ol)"
  proof (cases "j = k")
    case True
    then have "x = n"
      using a by simp
    then show ?thesis
      using True n by (simp add: L')
  next
    case False
    then have x: "os j = Some x"
      using a by simp
    obtain ol where "L (SymbolID (Order x)) (home x) = Some ol" "j \<in> set ol"
      using reg_ok_node(3) [OF ok x] by blast
    then show ?thesis
      using reg_ok_node(1,2) [OF ok x] by (auto simp add: L')
  qed
next
  fix s r ol
  assume a: "L' s r = Some ol"
  show "ol \<noteq> [] \<and> distinct ol \<and>
        (\<forall>j \<in> set ol. \<exists>x. (os(k \<mapsto> n)) j = Some x \<and> SymbolID (Order x) = s \<and> home x = r)"
  proof (cases "s = SymbolID (Order n) \<and> r = home n")
    case True
    let ?old = "case L s r of None \<Rightarrow> [] | Some ol \<Rightarrow> ol"
    have ol: "ol = ?old @ [k]"
      using a True by (simp add: L')
    have old: "distinct ?old \<and> (\<forall>j \<in> set ?old. \<exists>x. os j = Some x \<and> SymbolID (Order x) = s \<and> home x = r)"
    proof (cases "L s r")
      case None
      then show ?thesis
        by simp
    next
      case (Some l)
      then show ?thesis
        using reg_ok_list(2,3) [OF ok Some] by simp
    qed
    then have "k \<notin> set ?old"
      using new by auto
    then show ?thesis
      using old True n unfolding ol by auto
  next
    case False
    then have l: "L s r = Some ol"
      using a by (auto simp add: L' split: if_splits)
    have "\<exists>x. (os(k \<mapsto> n)) j = Some x \<and> SymbolID (Order x) = s \<and> home x = r" if mem: "j \<in> set ol" for j
    proof -
      obtain x where x: "os j = Some x" "SymbolID (Order x) = s" "home x = r"
        using reg_ok_list(3) [OF ok l mem] by blast
      then have "j \<noteq> k"
        using new by auto
      then show ?thesis
        using x by simp
    qed
    then show ?thesis
      using reg_ok_list(1,2) [OF ok l] by blast
  qed
qed

lemma reg_delete:
  assumes ok: "reg_ok os L" and n: "os k = Some n"
    and ol: "L (SymbolID (Order n)) (home n) = Some ol"
    and L': "\<And>s r. L' s r =
               (if s = SymbolID (Order n) \<and> r = home n
                then (if remove1 k ol = [] then None else Some (remove1 k ol))
                else L s r)"
  shows "reg_ok (os(k := None)) L'"
proof (rule reg_okI)
  fix j x
  assume a: "(os(k := None)) j = Some x"
  then have jk: "j \<noteq> k" and x: "os j = Some x"
    by (auto split: if_splits)
  obtain l where l: "L (SymbolID (Order x)) (home x) = Some l" "j \<in> set l"
    using reg_ok_node(3) [OF ok x] by blast
  have "\<exists>l'. L' (SymbolID (Order x)) (home x) = Some l' \<and> j \<in> set l'"
  proof (cases "SymbolID (Order x) = SymbolID (Order n) \<and> home x = home n")
    case True
    then have "l = ol"
      using l ol by simp
    then have "j \<in> set (remove1 k ol)"
      using l jk by simp
    then show ?thesis
      using True by (auto simp add: L')
  next
    case False
    then show ?thesis
      using l by (auto simp add: L')
  qed
  then show "ID (Order x) = j \<and> Level x = Some (home x) \<and>
        (\<exists>ol. L' (SymbolID (Order x)) (home x) = Some ol \<and> j \<in> set ol)"
    using reg_ok_node(1,2) [OF ok x] by simp
next
  fix s r l
  assume a: "L' s r = Some l"
  show "l \<noteq> [] \<and> distinct l \<and>
        (\<forall>j \<in> set l. \<exists>x. (os(k := None)) j = Some x \<and> SymbolID (Order x) = s \<and> home x = r)"
  proof (cases "s = SymbolID (Order n) \<and> r = home n")
    case True
    then have l: "l = remove1 k ol" "l \<noteq> []"
      using a by (auto simp add: L' split: if_splits)
    have d: "distinct ol"
      using reg_ok_list(2) [OF ok ol] .
    have "\<exists>x. (os(k := None)) j = Some x \<and> SymbolID (Order x) = s \<and> home x = r" if mem: "j \<in> set l" for j
    proof -
      have "j \<in> set ol" "j \<noteq> k"
        using mem d unfolding l by auto
      then show ?thesis
        using reg_ok_list(3) [OF ok ol] True by auto
    qed
    then show ?thesis
      using l d by auto
  next
    case False
    then have l: "L s r = Some l"
      using a by (auto simp add: L' split: if_splits)
    have "\<exists>x. (os(k := None)) j = Some x \<and> SymbolID (Order x) = s \<and> home x = r" if mem: "j \<in> set l" for j
    proof -
      obtain x where x: "os j = Some x" "SymbolID (Order x) = s" "home x = r"
        using reg_ok_list(3) [OF ok l mem] by blast
      have "j \<noteq> k"
      proof
        assume "j = k"
        then have "x = n"
          using x n by simp
        then show False
          using x False by simp
      qed
      then show ?thesis
        using x by simp
    qed
    then show ?thesis
      using reg_ok_list(1,2) [OF ok l] by blast
  qed
qed

lemma reg_update:
  assumes ok: "reg_ok os L" and n: "os k = Some n"
    and n1: "ID (Order n1) = k" "SymbolID (Order n1) = SymbolID (Order n)" "home n1 = home n"
      "Level n1 = Level n"
  shows "reg_ok (os(k \<mapsto> n1)) L"
proof (rule reg_okI)
  fix j x
  assume a: "(os(k \<mapsto> n1)) j = Some x"
  show "ID (Order x) = j \<and> Level x = Some (home x) \<and>
        (\<exists>ol. L (SymbolID (Order x)) (home x) = Some ol \<and> j \<in> set ol)"
  proof (cases "j = k")
    case True
    then have "x = n1"
      using a by simp
    then show ?thesis
      using True n1 reg_ok_node [OF ok n] by simp
  next
    case False
    then have "os j = Some x"
      using a by simp
    then show ?thesis
      using reg_ok_node [OF ok] by blast
  qed
next
  fix s r l
  assume l: "L s r = Some l"
  have "\<exists>x. (os(k \<mapsto> n1)) j = Some x \<and> SymbolID (Order x) = s \<and> home x = r" if mem: "j \<in> set l" for j
  proof -
    obtain x where x: "os j = Some x" "SymbolID (Order x) = s" "home x = r"
      using reg_ok_list(3) [OF ok l mem] by blast
    show ?thesis
    proof (cases "j = k")
      case True
      then have "x = n"
        using x n by simp
      then show ?thesis
        using True x n1 by simp
    next
      case False
      then show ?thesis
        using x by simp
    qed
  qed
  then show "l \<noteq> [] \<and> distinct l \<and>
        (\<forall>j \<in> set l. \<exists>x. (os(k \<mapsto> n1)) j = Some x \<and> SymbolID (Order x) = s \<and> home x = r)"
    using reg_ok_list(1,2) [OF ok l] by blast
qed

lemma reg_drop:
  assumes ok: "reg_ok os L" and none: "\<And>k n. os k = Some n \<Longrightarrow> SymbolID (Order n) \<noteq> s0"
    and L': "\<And>s r. L' s r = (if s = s0 then None else L s r)"
  shows "reg_ok os L'"
proof (rule reg_okI)
  fix j x
  assume x: "os j = Some x"
  then show "ID (Order x) = j \<and> Level x = Some (home x) \<and>
        (\<exists>ol. L' (SymbolID (Order x)) (home x) = Some ol \<and> j \<in> set ol)"
    using reg_ok_node [OF ok x] none [OF x] by (simp add: L')
next
  fix s r l
  assume "L' s r = Some l"
  then have "L s r = Some l"
    by (simp add: L' split: if_splits)
  then show "l \<noteq> [] \<and> distinct l \<and>
        (\<forall>j \<in> set l. \<exists>x. os j = Some x \<and> SymbolID (Order x) = s \<and> home x = r)"
    using reg_ok_list [OF ok] by blast
qed

lemma reg_add_book:
  assumes ok: "reg_ok os L" and L': "\<And>s r. L' s r = (if s = s0 then None else L s r)"
    and none: "\<And>r. L s0 r = None"
  shows "reg_ok os L'"
proof -
  have "L' = L"
    using L' none by (auto simp add: fun_eq_iff)
  then show ?thesis
    using ok by simp
qed

subsection \<open>Consistent states of the manager\<close>

text \<open>
  The order lists of all books of a manager. A manager is consistent when its books are in
  order and its registry agrees with their lists.
\<close>

definition book_lists :: "MarketManager \<Rightarrow> u32 \<Rightarrow> LevelRef \<Rightarrow> u64 list option" where
  "book_lists m s r = (case orderBooks m s of None \<Rightarrow> None | Some b \<Rightarrow> ids_at b r)"

definition consistent :: "MarketManager \<Rightarrow> bool" where
  "consistent m = ((\<forall>s b. orderBooks m s = Some b \<longrightarrow> book_ok b) \<and> reg_ok (orders m) (book_lists m))"

lemma wf_book: "consistent m \<Longrightarrow> orderBooks m s = Some b \<Longrightarrow> book_ok b"
  unfolding consistent_def by blast

lemma wf_reg: "consistent m \<Longrightarrow> reg_ok (orders m) (book_lists m)"
  unfolding consistent_def by blast

lemma wfI:
  "(\<And>s b. orderBooks m s = Some b \<Longrightarrow> book_ok b) \<Longrightarrow> reg_ok (orders m) (book_lists m) \<Longrightarrow> consistent m"
  unfolding consistent_def by blast

lemma lists_cong: "orderBooks m' = orderBooks m \<Longrightarrow> book_lists m' = book_lists m"
  by (simp add: book_lists_def fun_eq_iff)

lemma wf_cong: "orderBooks m' = orderBooks m \<Longrightarrow> orders m' = orders m \<Longrightarrow> consistent m' = consistent m"
  using lists_cong [of m' m] by (simp add: consistent_def)

lemma wf_notify [simp]: "consistent (notify es m) = consistent m"
  by (rule wf_cong) (simp_all add: notify_def)

lemma notify_fields [simp]:
  "orders (notify es m) = orders m" "orderBooks (notify es m) = orderBooks m"
  "matching (notify es m) = matching m" "symbols (notify es m) = symbols m"
  by (simp_all add: notify_def)

lemma wf_NewMarketManager [simp]: "consistent NewMarketManager"
proof -
  have "book_lists NewMarketManager = (\<lambda>s r. None)"
    by (simp add: fun_eq_iff book_lists_def NewMarketManager_def)
  then show ?thesis
    by (simp add: consistent_def) (simp add: NewMarketManager_def)
qed

lemma wf_EnableMatching [simp]: "consistent (EnableMatching m) = consistent m"
  by (rule wf_cong) (simp_all add: EnableMatching_def)

lemma wf_DisableMatching [simp]: "consistent (DisableMatching m) = consistent m"
  by (rule wf_cong) (simp_all add: DisableMatching_def)

lemma lists_upd:
  "orderBooks m' = (orderBooks m)(s \<mapsto> b) \<Longrightarrow>
   book_lists m' t r = (if t = s then ids_at b r else book_lists m t r)"
  by (simp add: book_lists_def)

lemma wf_node:
  assumes "consistent m" and "orders m k = Some n"
  shows "ID (Order n) = k" and "Level n = Some (home n)"
    and "\<exists>b ol. orderBooks m (SymbolID (Order n)) = Some b \<and> ids_at b (home n) = Some ol \<and>
           k \<in> set ol"
proof -
  show "ID (Order n) = k" "Level n = Some (home n)"
    using reg_ok_node(1,2) [OF wf_reg [OF assms(1)] assms(2)] .
  obtain ol where "book_lists m (SymbolID (Order n)) (home n) = Some ol" "k \<in> set ol"
    using reg_ok_node(3) [OF wf_reg [OF assms(1)] assms(2)] by blast
  then show "\<exists>b ol. orderBooks m (SymbolID (Order n)) = Some b \<and> ids_at b (home n) = Some ol \<and>
           k \<in> set ol"
    by (auto simp add: book_lists_def split: option.splits)
qed

lemma wf_list:
  assumes "consistent m" and "orderBooks m s = Some b" and "ids_at b r = Some ol"
  shows "ol \<noteq> []" and "distinct ol"
    and "\<And>k. k \<in> set ol \<Longrightarrow> \<exists>n. orders m k = Some n \<and> SymbolID (Order n) = s \<and> home n = r"
proof -
  have l: "book_lists m s r = Some ol"
    using assms(2,3) by (simp add: book_lists_def)
  show "ol \<noteq> []" "distinct ol"
    using reg_ok_list(1,2) [OF wf_reg [OF assms(1)] l] .
  fix k
  assume "k \<in> set ol"
  then show "\<exists>n. orders m k = Some n \<and> SymbolID (Order n) = s \<and> home n = r"
    using reg_ok_list(3) [OF wf_reg [OF assms(1)] l] by blast
qed

lemma step_insert:
  assumes wf: "consistent m" and ob: "orderBooks m s = Some ob" and new: "orders m k = None"
    and n: "ID (Order n) = k" "SymbolID (Order n) = s"
    and add: "OrderBook_AddOrder ob k n = (ob', n')"
    and m': "orders m' = (orders m)(k \<mapsto> n')" "orderBooks m' = (orderBooks m)(s \<mapsto> ob')"
  shows "consistent m'"
proof (rule wfI)
  have bok: "book_ok ob"
    using wf_book [OF wf ob] .
  note st = OrderBook_AddOrder_store [OF bok add]
  fix t b
  assume "orderBooks m' t = Some b"
  then show "book_ok b"
    using st(1) wf_book [OF wf, of t b] by (auto simp add: m' split: if_splits)
next
  have bok: "book_ok ob"
    using wf_book [OF wf ob] .
  note st = OrderBook_AddOrder_store [OF bok add]
  have h: "home n' = home n"
    using st(2) by (simp add: home_def)
  have "reg_ok ((orders m)(k \<mapsto> n')) (book_lists m')"
  proof (rule reg_insert [OF wf_reg [OF wf] new])
    show "ID (Order n') = k" "Level n' = Some (home n')"
      using st(2,3) n h by simp_all
    fix t r
    show "book_lists m' t r =
            (if t = SymbolID (Order n') \<and> r = home n'
             then Some ((case book_lists m t r of None \<Rightarrow> [] | Some ol \<Rightarrow> ol) @ [k])
             else book_lists m t r)"
      unfolding lists_upd [OF m'(2)] h st(2) n(2) st(4)
      using ob by (auto simp add: book_lists_def)
  qed
  then show "reg_ok (orders m') (book_lists m')"
    by (simp add: m')
qed

lemma step_delete:
  assumes wf: "consistent m" and n: "orders m k = Some n"
  shows "\<exists>ob ob' n'.
           orderBooks m (SymbolID (Order n)) = Some ob \<and>
           OrderBook_DeleteOrder ob k n = Some (ob', n') \<and>
           Order n' = Order n \<and> Level n' = None \<and>
           (\<forall>r. ids_at ob' r \<noteq> None \<longrightarrow> ids_at ob r \<noteq> None) \<and>
           (\<forall>m'. orders m' = (orders m)(k := None) \<longrightarrow>
                 orderBooks m' = (orderBooks m)(SymbolID (Order n) \<mapsto> ob') \<longrightarrow> consistent m')"
proof -
  let ?s = "SymbolID (Order n)"
  obtain ob ol where ob: "orderBooks m ?s = Some ob" and ol: "ids_at ob (home n) = Some ol"
    using wf_node(3) [OF wf n] by blast
  have bok: "book_ok ob"
    using wf_book [OF wf ob] .
  obtain ob' n' where del: "OrderBook_DeleteOrder ob k n = Some (ob', n')"
    and bok': "book_ok ob'" and n': "Order n' = Order n" "Level n' = None"
    and ids: "\<And>r. ids_at ob' r =
                (if r = home n then (if remove1 k ol = [] then None else Some (remove1 k ol))
                 else ids_at ob r)"
    using OrderBook_DeleteOrder_store [OF bok wf_node(2) [OF wf n] ol, of k] by blast
  have shrink: "\<forall>r. ids_at ob' r \<noteq> None \<longrightarrow> ids_at ob r \<noteq> None"
    using ol by (auto simp add: ids split: if_splits)
  have wfm': "consistent m'" if m': "orders m' = (orders m)(k := None)"
      "orderBooks m' = (orderBooks m)(?s \<mapsto> ob')" for m'
  proof (rule wfI)
    fix t b
    assume "orderBooks m' t = Some b"
    then show "book_ok b"
      using bok' wf_book [OF wf, of t b] by (auto simp add: m' split: if_splits)
  next
    have l: "book_lists m ?s (home n) = Some ol"
      using ob ol by (simp add: book_lists_def)
    have "reg_ok ((orders m)(k := None)) (book_lists m')"
    proof (rule reg_delete [OF wf_reg [OF wf] n l])
      fix t r
      show "book_lists m' t r =
              (if t = ?s \<and> r = home n
               then (if remove1 k ol = [] then None else Some (remove1 k ol))
               else book_lists m t r)"
        unfolding lists_upd [OF m'(2)] ids using ob by (auto simp add: book_lists_def)
    qed
    then show "reg_ok (orders m') (book_lists m')"
      by (simp add: m')
  qed
  show ?thesis
    using ob del n' shrink wfm'
    by (intro exI [of _ ob] exI [of _ ob'] exI [of _ n']) simp
qed

lemma step_reduce:
  assumes wf: "consistent m" and n: "orders m k = Some n"
    and n1: "ID (Order n1) = ID (Order n)" "SymbolID (Order n1) = SymbolID (Order n)"
      "home n1 = home n" "Level n1 = Level n"
  shows "\<exists>ob ob1.
           orderBooks m (SymbolID (Order n)) = Some ob \<and>
           OrderBook_ReduceOrder ob n1 quantity hidden visible = Some ob1 \<and>
           (\<forall>r. ids_at ob1 r = ids_at ob r) \<and>
           (\<forall>m'. orders m' = (orders m)(k \<mapsto> n1) \<longrightarrow>
                 orderBooks m' = (orderBooks m)(SymbolID (Order n) \<mapsto> ob1) \<longrightarrow> consistent m')"
proof -
  let ?s = "SymbolID (Order n)"
  obtain ob ol where ob: "orderBooks m ?s = Some ob" and ol: "ids_at ob (home n) = Some ol"
    using wf_node(3) [OF wf n] by blast
  have bok: "book_ok ob"
    using wf_book [OF wf ob] .
  have lv: "Level n1 = Some (home n)"
    using n1(4) wf_node(2) [OF wf n] by simp
  have pres: "deref ob (home n) \<noteq> None"
    using ol by (auto simp add: ids_at_def)
  obtain ob1 where red: "OrderBook_ReduceOrder ob n1 quantity hidden visible = Some ob1"
    and bok1: "book_ok ob1" and ids: "\<And>r. ids_at ob1 r = ids_at ob r"
    using OrderBook_ReduceOrder_store [OF bok lv pres, of quantity hidden visible] by blast
  have wfm': "consistent m'" if m': "orders m' = (orders m)(k \<mapsto> n1)"
      "orderBooks m' = (orderBooks m)(?s \<mapsto> ob1)" for m'
  proof (rule wfI)
    fix t b
    assume "orderBooks m' t = Some b"
    then show "book_ok b"
      using bok1 wf_book [OF wf, of t b] by (auto simp add: m' split: if_splits)
  next
    have "book_lists m' t r = book_lists m t r" for t r
      unfolding lists_upd [OF m'(2)] ids using ob by (simp add: book_lists_def)
    then have "book_lists m' = book_lists m"
      by (simp add: fun_eq_iff)
    moreover have "reg_ok ((orders m)(k \<mapsto> n1)) (book_lists m)"
      using reg_update [OF wf_reg [OF wf] n _ n1(2,3,4)] n1(1) wf_node(1) [OF wf n] by simp
    ultimately show "reg_ok (orders m') (book_lists m')"
      by (simp add: m')
  qed
  show ?thesis
    using ob red ids wfm'
    by (intro exI [of _ ob] exI [of _ ob1]) simp
qed

lemma updateLevel_total:
  assumes "orderBooks m s = Some b" and "Level n = Some r" and "deref b r \<noteq> None"
  shows "\<exists>es. updateLevel m s n u = Some (notify es m)"
  using assms by (auto simp add: updateLevel_def Let_def)

subsection \<open>Executions\<close>

text \<open>A book is uncrossed when every bid level is priced below every ask level.\<close>

definition uncrossed :: "OrderBook \<Rightarrow> bool" where
  "uncrossed ob =
     (\<forall>p q. ids_at ob (Bids, p) \<noteq> None \<longrightarrow> ids_at ob (Asks, q) \<noteq> None \<longrightarrow> p < q)"

lemma uncrossed_iff:
  assumes "book_ok ob"
  shows "uncrossed ob = (\<forall>b a. bestBid ob = Some b \<longrightarrow> bestAsk ob = Some a \<longrightarrow> snd b < snd a)"
proof
  assume u: "uncrossed ob"
  show "\<forall>b a. bestBid ob = Some b \<longrightarrow> bestAsk ob = Some a \<longrightarrow> snd b < snd a"
  proof (intro allI impI)
    fix b a
    assume b: "bestBid ob = Some b" and a: "bestAsk ob = Some a"
    have "fst b = Bids" "deref ob b \<noteq> None"
      using best_of_present [OF assms, of Bids b] b by simp_all
    then have pb: "ids_at ob (Bids, snd b) \<noteq> None"
      by (cases b) (simp add: ids_at_def)
    have "fst a = Asks" "deref ob a \<noteq> None"
      using best_of_present [OF assms, of Asks a] a by simp_all
    then have pa: "ids_at ob (Asks, snd a) \<noteq> None"
      by (cases a) (simp add: ids_at_def)
    show "snd b < snd a"
      using u pb pa unfolding uncrossed_def by blast
  qed
next
  assume r: "\<forall>b a. bestBid ob = Some b \<longrightarrow> bestAsk ob = Some a \<longrightarrow> snd b < snd a"
  show "uncrossed ob"
    unfolding uncrossed_def
  proof (intro allI impI)
    fix p q
    assume p: "ids_at ob (Bids, p) \<noteq> None" and q: "ids_at ob (Asks, q) \<noteq> None"
    have dp: "deref ob (Bids, p) \<noteq> None" and dq: "deref ob (Asks, q) \<noteq> None"
      using p q by (simp_all add: ids_at_def)
    obtain b where b: "bestBid ob = Some b"
      using best_of_None [OF assms, of Bids p] dp by (cases "bestBid ob") auto
    obtain a where a: "bestAsk ob = Some a"
      using best_of_None [OF assms, of Asks q] dq by (cases "bestAsk ob") auto
    have "p = snd b \<or> before True (snd b) p"
      using best_of_first [OF assms, of Bids "fst b" "snd b" p] b dp by simp
    then have 1: "p \<le> snd b"
      by (auto simp add: before_def)
    have "q = snd a \<or> before False (snd a) q"
      using best_of_first [OF assms, of Asks "fst a" "snd a" q] a dq by simp
    then have 2: "snd a \<le> q"
      by (auto simp add: before_def)
    have "snd b < snd a"
      using r a b by blast
    then show "p < q"
      using 1 2 by simp
  qed
qed

lemma uncrossed_shrink:
  "uncrossed ob \<Longrightarrow> (\<forall>r. ids_at ob' r \<noteq> None \<longrightarrow> ids_at ob r \<noteq> None) \<Longrightarrow> uncrossed ob'"
  unfolding uncrossed_def by blast

lemma uncrossed_NewOrderBook [simp]: "uncrossed (NewOrderBook symb)"
  by (simp add: uncrossed_def)

lemma home_quantities [simp]:
  "home (n\<lparr>Order := (Order n)\<lparr>ExecutedQuantity := e, LeavesQuantity := l\<rparr>\<rparr>) = home n"
  "home (n\<lparr>Order := (Order n)\<lparr>LeavesQuantity := l\<rparr>\<rparr>) = home n"
  by (simp_all add: home_def index_of_def routing_price_def IsTrailingStop_def
      IsTrailingStopLimit_def IsStop_def IsStopLimit_def IsBuy_def)

lemma executeOrder_step:
  assumes wf: "consistent m" and n: "orders m p = Some n"
  shows "\<exists>m' ob ob'.
           executeOrder m p price quantity = Some m' \<and> consistent m' \<and>
           matching m' = matching m \<and> symbols m' = symbols m \<and>
           orderBooks m (SymbolID (Order n)) = Some ob \<and>
           orderBooks m' = (orderBooks m)(SymbolID (Order n) \<mapsto> ob') \<and>
           (\<forall>r. ids_at ob' r \<noteq> None \<longrightarrow> ids_at ob r \<noteq> None) \<and>
           orders m' =
             (if LeavesQuantity (Order n) - quantity = 0 then (orders m)(p := None)
              else (orders m)(p \<mapsto> n\<lparr>Order := (Order n)
                     \<lparr>ExecutedQuantity := ExecutedQuantity (Order n) + quantity,
                      LeavesQuantity := LeavesQuantity (Order n) - quantity\<rparr>\<rparr>))"
proof -
  let ?s = "SymbolID (Order n)"
  let ?n1 = "n\<lparr>Order := (Order n)
                     \<lparr>ExecutedQuantity := ExecutedQuantity (Order n) + quantity,
                      LeavesQuantity := LeavesQuantity (Order n) - quantity\<rparr>\<rparr>"
  let ?hr = "HiddenQuantity (Order n) - HiddenQuantity (Order ?n1)"
  let ?vr = "VisibleQuantity (Order n) - VisibleQuantity (Order ?n1)"
  have n1: "ID (Order ?n1) = ID (Order n)" "SymbolID (Order ?n1) = SymbolID (Order n)"
    "home ?n1 = home n" "Level ?n1 = Level n"
    by simp_all
  obtain ob ob1 where ob: "orderBooks m ?s = Some ob"
    and red: "OrderBook_ReduceOrder ob ?n1 quantity ?hr ?vr = Some ob1"
    and ids1: "\<And>r. ids_at ob1 r = ids_at ob r"
    and wf1: "\<And>m'. orders m' = (orders m)(p \<mapsto> ?n1) \<Longrightarrow>
                orderBooks m' = (orderBooks m)(?s \<mapsto> ob1) \<Longrightarrow> consistent m'"
    using step_reduce [OF wf n n1, of quantity ?hr ?vr] by blast
  let ?m1 = "notify [OnExecuteOrder (Order ?n1) price quantity]
                  (m\<lparr>orders := (orders m)(p \<mapsto> ?n1),
                     orderBooks := (orderBooks m)(?s \<mapsto> ob1)\<rparr>)"
  have m1: "orders ?m1 = (orders m)(p \<mapsto> ?n1)" "orderBooks ?m1 = (orderBooks m)(?s \<mapsto> ob1)"
    by simp_all
  have c1: "consistent ?m1"
    using wf1 [OF m1] .
  have lv1: "Level ?n1 = Some (home n)"
    using wf_node(2) [OF wf n] by simp
  obtain ol where ol: "ids_at ob (home n) = Some ol"
    using wf_node(3) [OF wf n] ob by auto
  have pres1: "deref ob1 (home n) \<noteq> None"
    using ids1 [of "home n"] ol by (auto simp add: ids_at_def)
  show ?thesis
  proof (cases "LeavesQuantity (Order n) - quantity = 0")
    case True
    obtain es where ul: "updateLevel ?m1 ?s ?n1 UpdateDelete = Some (notify es ?m1)"
      using updateLevel_total [of ?m1 ?s ob1 ?n1 "home n" UpdateDelete] lv1 pres1 by auto
    have on1: "orders ?m1 p = Some ?n1"
      by simp
    obtain ob1' ob2 n2 where ob1': "orderBooks ?m1 (SymbolID (Order ?n1)) = Some ob1'"
      and del: "OrderBook_DeleteOrder ob1' p ?n1 = Some (ob2, n2)"
      and n2: "Order n2 = Order ?n1"
      and shrink: "\<forall>r. ids_at ob2 r \<noteq> None \<longrightarrow> ids_at ob1' r \<noteq> None"
      and wf2: "\<And>m'. orders m' = (orders ?m1)(p := None) \<Longrightarrow>
                  orderBooks m' = (orderBooks ?m1)(SymbolID (Order ?n1) \<mapsto> ob2) \<Longrightarrow> consistent m'"
      using step_delete [OF c1 on1] by blast
    have e: "ob1' = ob1"
      using ob1' by simp
    have idp: "ID (Order n2) = p"
      using n2 wf_node(1) [OF wf n] by simp
    let ?m3 = "notify [OnDeleteOrder (Order n2)]
                   ((notify es ?m1)\<lparr>orderBooks := (orderBooks (notify es ?m1))(?s \<mapsto> ob2),
                       orders := ((orders (notify es ?m1))(p \<mapsto> n2))(ID (Order n2) := None)\<rparr>)"
    have res: "executeOrder m p price quantity = Some ?m3"
      unfolding executeOrder_def using n ob red True ul del [unfolded e]
      by (simp add: Let_def)
    have m3: "orders ?m3 = (orders m)(p := None)" "orderBooks ?m3 = (orderBooks m)(?s \<mapsto> ob2)"
      "matching ?m3 = matching m" "symbols ?m3 = symbols m"
      by (simp_all add: idp)
    have "consistent ?m3"
      by (rule wf2) (simp_all add: idp)
    then show ?thesis
      using res m3 ob shrink True ids1 unfolding e
      by (intro exI [of _ ?m3] exI [of _ ob] exI [of _ ob2]) simp
  next
    case False
    obtain es where ul: "updateLevel (notify [OnUpdateOrder (Order ?n1)] ?m1) ?s ?n1 UpdateUpdate =
        Some (notify es (notify [OnUpdateOrder (Order ?n1)] ?m1))"
      using updateLevel_total [of "notify [OnUpdateOrder (Order ?n1)] ?m1" ?s ob1 ?n1 "home n" UpdateUpdate]
        lv1 pres1 by auto
    let ?m3 = "notify es (notify [OnUpdateOrder (Order ?n1)] ?m1)"
    have res: "executeOrder m p price quantity = Some ?m3"
      unfolding executeOrder_def using n ob red False ul
      by (simp add: Let_def)
    have m3: "orders ?m3 = (orders m)(p \<mapsto> ?n1)" "orderBooks ?m3 = (orderBooks m)(?s \<mapsto> ob1)"
      "matching ?m3 = matching m" "symbols ?m3 = symbols m"
      by simp_all
    have "consistent ?m3"
      using c1 by simp
    then show ?thesis
      using res m3 ob False ids1
      by (intro exI [of _ ?m3] exI [of _ ob] exI [of _ ob1]) simp
  qed
qed

text \<open>
  What executions do to the registry: an order is removed or keeps everything but its
  executed and leaves quantities.
\<close>

definition only_executed :: "(u64 \<rightharpoonup> OrderNode) \<Rightarrow> (u64 \<rightharpoonup> OrderNode) \<Rightarrow> bool" where
  "only_executed os os' =
     (\<forall>k n'. os' k = Some n' \<longrightarrow>
        (\<exists>n. os k = Some n \<and> Level n' = Level n \<and>
           Order n' = (Order n)\<lparr>ExecutedQuantity := ExecutedQuantity (Order n'),
                                  LeavesQuantity := LeavesQuantity (Order n')\<rparr>))"

lemma only_executed_refl [simp]: "only_executed os os"
  by (simp add: only_executed_def)

lemma only_executed_trans:
  assumes "only_executed os os'" and "only_executed os' os''"
  shows "only_executed os os''"
  unfolding only_executed_def
proof (intro allI impI)
  fix k n''
  assume "os'' k = Some n''"
  then obtain n' where n': "os' k = Some n'" "Level n'' = Level n'"
    "Order n'' = (Order n')\<lparr>ExecutedQuantity := ExecutedQuantity (Order n''),
                               LeavesQuantity := LeavesQuantity (Order n'')\<rparr>"
    using assms(2) unfolding only_executed_def by blast
  obtain n where n: "os k = Some n" "Level n' = Level n"
    "Order n' = (Order n)\<lparr>ExecutedQuantity := ExecutedQuantity (Order n'),
                             LeavesQuantity := LeavesQuantity (Order n')\<rparr>"
    using assms(1) n'(1) unfolding only_executed_def by blast
  have "Order n'' = (Order n)\<lparr>ExecutedQuantity := ExecutedQuantity (Order n''),
                               LeavesQuantity := LeavesQuantity (Order n'')\<rparr>"
    by (subst n'(3), subst n(3)) simp
  then show "\<exists>n. os k = Some n \<and> Level n'' = Level n \<and>
           Order n'' = (Order n)\<lparr>ExecutedQuantity := ExecutedQuantity (Order n''),
                                  LeavesQuantity := LeavesQuantity (Order n'')\<rparr>"
    using n n'(2) by simp
qed

lemma only_executed_dom: "only_executed os os' \<Longrightarrow> dom os' \<subseteq> dom os"
  unfolding only_executed_def by blast

lemma only_executed_step:
  assumes "os p = Some n"
    and "os' = (if c then os(p := None)
                else os(p \<mapsto> n\<lparr>Order := (Order n)\<lparr>ExecutedQuantity := e, LeavesQuantity := l\<rparr>\<rparr>))"
  shows "only_executed os os'"
  using assms by (auto simp add: only_executed_def split: if_splits)

subsection \<open>The matching loop returns\<close>

text \<open>
  What the loop leaves: a consistent manager whose book \<open>s\<close> is uncrossed, with the other
  books, the symbols and the switch as they were and no order added. Every round removes an
  order from the registry, which bounds the rounds.
\<close>

definition match_post :: "u32 \<Rightarrow> MarketManager \<Rightarrow> MarketManager \<Rightarrow> bool" where
  "match_post s m m' =
     (consistent m' \<and> matching m' = matching m \<and> symbols m' = symbols m \<and>
      (\<forall>t. t \<noteq> s \<longrightarrow> orderBooks m' t = orderBooks m t) \<and>
      (\<exists>b'. orderBooks m' s = Some b' \<and> uncrossed b') \<and>
      only_executed (orders m) (orders m'))"

lemma match_total:
  assumes "consistent m" and "orderBooks m s \<noteq> None"
  shows "\<exists>m'. match s m = Some m' \<and> match_post s m m'"
  using assms
proof (induction "card (dom (orders m))" arbitrary: m rule: less_induct)
  case less
  note wf = less.prems(1)
  obtain b where b: "orderBooks m s = Some b"
    using less.prems(2) by auto
  have bok: "book_ok b"
    using wf_book [OF wf b] .
  have stop: "\<exists>m'. match s m = Some m' \<and> match_post s m m'"
    if m: "match s m = Some m"
      and u: "\<forall>rb ra. bestBid b = Some rb \<longrightarrow> bestAsk b = Some ra \<longrightarrow> snd rb < snd ra"
  proof -
    have "uncrossed b"
      using u by (simp add: uncrossed_iff [OF bok])
    then have "match_post s m m"
      using wf b by (simp add: match_post_def)
    then show ?thesis
      using m by blast
  qed
  show ?case
  proof (cases "bestBid b = None \<or> bestAsk b = None")
    case True
    have "match s m = Some m"
      by (subst match.simps) (use b True in auto)
    then show ?thesis
      using stop True by auto
  next
    case False
    then obtain rb ra where rb: "bestBid b = Some rb" and ra: "bestAsk b = Some ra"
      by auto
    have fb: "fst rb = Bids" and pb: "deref b rb \<noteq> None"
      using best_of_present [OF bok, of Bids rb] rb by simp_all
    have fa: "fst ra = Asks" and pa: "deref b ra \<noteq> None"
      using best_of_present [OF bok, of Asks ra] ra by simp_all
    obtain bl bidList where db: "deref b rb = Some (bl, bidList)"
      using pb by auto
    obtain al askList where da: "deref b ra = Some (al, askList)"
      using pa by auto
    have prb: "Level_Price bl = snd rb" and pra: "Level_Price al = snd ra"
      using deref_price [OF db] deref_price [OF da] by simp_all
    show ?thesis
    proof (cases "snd rb < snd ra")
      case True
      have "match s m = Some m"
        by (subst match.simps) (use b rb ra db da prb pra True in simp)
      then show ?thesis
        using stop rb ra True by auto
    next
      case cross: False
      have ib: "ids_at b rb = Some bidList" and ia: "ids_at b ra = Some askList"
        using db da by (simp_all add: ids_at_def)
      have neb: "bidList \<noteq> []" and nea: "askList \<noteq> []"
        using wf_list(1) [OF wf b ib] wf_list(1) [OF wf b ia] by simp_all
      let ?kb = "hd bidList" and ?ka = "hd askList"
      obtain bn where bn: "orders m ?kb = Some bn" "SymbolID (Order bn) = s" "home bn = rb"
        using wf_list(3) [OF wf b ib, of ?kb] neb by auto
      obtain an where an: "orders m ?ka = Some an" "SymbolID (Order an) = s" "home an = ra"
        using wf_list(3) [OF wf b ia, of ?ka] nea by auto
      have kk: "?kb \<noteq> ?ka"
      proof
        assume "?kb = ?ka"
        then have "bn = an"
          using bn(1) an(1) by simp
        then have "rb = ra"
          using bn(3) an(3) by simp
        then show False
          using fb fa by simp
      qed
      let ?q = "if LeavesQuantity (Order an) < LeavesQuantity (Order bn)
                then LeavesQuantity (Order an) else LeavesQuantity (Order bn)"
      let ?price = "Price (Order an)"
      obtain m1 ob1 where e1: "executeOrder m ?kb ?price ?q = Some m1"
        and c1: "consistent m1" and f1: "matching m1 = matching m" "symbols m1 = symbols m"
        and b1: "orderBooks m1 = (orderBooks m)(s \<mapsto> ob1)"
        and o1: "orders m1 =
             (if LeavesQuantity (Order bn) - ?q = 0 then (orders m)(?kb := None)
              else (orders m)(?kb \<mapsto> bn\<lparr>Order := (Order bn)
                     \<lparr>ExecutedQuantity := ExecutedQuantity (Order bn) + ?q,
                      LeavesQuantity := LeavesQuantity (Order bn) - ?q\<rparr>\<rparr>))"
        using executeOrder_step [OF wf bn(1), of ?price ?q] unfolding bn(2) by blast
      have an1: "orders m1 ?ka = Some an"
        using an(1) kk by (simp add: o1)
      obtain m2 ob2 where e2: "executeOrder m1 ?ka ?price ?q = Some m2"
        and c2: "consistent m2" and f2: "matching m2 = matching m1" "symbols m2 = symbols m1"
        and b2: "orderBooks m2 = (orderBooks m1)(s \<mapsto> ob2)"
        and o2: "orders m2 =
             (if LeavesQuantity (Order an) - ?q = 0 then (orders m1)(?ka := None)
              else (orders m1)(?ka \<mapsto> an\<lparr>Order := (Order an)
                     \<lparr>ExecutedQuantity := ExecutedQuantity (Order an) + ?q,
                      LeavesQuantity := LeavesQuantity (Order an) - ?q\<rparr>\<rparr>))"
        using executeOrder_step [OF c1 an1, of ?price ?q] unfolding an(2) by blast
      have x1: "only_executed (orders m) (orders m1)"
        using only_executed_step [OF bn(1) o1] .
      have x2: "only_executed (orders m1) (orders m2)"
        using only_executed_step [OF an1 o2] .
      have d1: "dom (orders m1) \<subseteq> dom (orders m)"
        using only_executed_dom [OF x1] .
      have d2: "dom (orders m2) \<subseteq> dom (orders m1)"
        using only_executed_dom [OF x2] .
      have "\<exists>k. k \<in> dom (orders m) \<and> k \<notin> dom (orders m2)"
      proof (cases "LeavesQuantity (Order an) < LeavesQuantity (Order bn)")
        case True
        then have "orders m2 ?ka = None"
          by (simp add: o2)
        then show ?thesis
          using an(1) by blast
      next
        case False
        then have "orders m1 ?kb = None"
          by (simp add: o1)
        then have "?kb \<notin> dom (orders m2)"
          using d2 by blast
        then show ?thesis
          using bn(1) by blast
      qed
      then have "dom (orders m2) \<subset> dom (orders m)"
        using d1 d2 by blast
      then have less: "card (dom (orders m2)) < card (dom (orders m))"
        by (rule psubset_card_mono [rotated]) simp
      have "orderBooks m2 s \<noteq> None"
        by (simp add: b2)
      then obtain m' where m': "match s m2 = Some m'" and post: "match_post s m2 m'"
        using less.hyps [OF less c2] by blast
      have "match s m = match s m2"
        by (subst match.simps) (use b rb ra db da prb pra cross neb nea bn(1) an(1) e1 e2 in simp)
      moreover have "match_post s m m'"
      proof -
        have "only_executed (orders m2) (orders m')"
          using post unfolding match_post_def by blast
        then have "only_executed (orders m) (orders m')"
          using only_executed_trans x1 x2 by blast
        then show ?thesis
          using post unfolding match_post_def f2 f1 b2 b1 by simp
      qed
      ultimately show ?thesis
        using m' by simp
    qed
  qed
qed

lemma run_match_total:
  assumes "consistent m" and "orderBooks m s \<noteq> None"
  shows "\<exists>m'. run_match m s = Some m' \<and> consistent m' \<and> matching m' = matching m \<and>
           symbols m' = symbols m \<and>
           (\<forall>t. t \<noteq> s \<longrightarrow> orderBooks m' t = orderBooks m t) \<and>
           (\<exists>b'. orderBooks m' s = Some b' \<and> (matching m \<longrightarrow> uncrossed b')) \<and>
           dom (orders m') \<subseteq> dom (orders m) \<and>
           only_executed (orders m) (orders m') \<and>
           (\<not> matching m \<longrightarrow> m' = m)"
proof (cases "matching m")
  case True
  then show ?thesis
    using match_total [OF assms] only_executed_dom [of "orders m"]
    by (auto simp add: run_match_def match_post_def)
next
  case False
  then show ?thesis
    using assms by (auto simp add: run_match_def)
qed

subsection \<open>The operations return and keep the state consistent\<close>

definition all_uncrossed :: "MarketManager \<Rightarrow> bool" where
  "all_uncrossed m = (\<forall>s b. orderBooks m s = Some b \<longrightarrow> uncrossed b)"

lemma all_uncrossed_cong: "orderBooks m' = orderBooks m \<Longrightarrow> all_uncrossed m' = all_uncrossed m"
  by (simp add: all_uncrossed_def)

lemma all_uncrossed_notify [simp]: "all_uncrossed (notify es m) = all_uncrossed m"
  by (simp add: all_uncrossed_def)

lemma all_uncrossed_frame:
  assumes "all_uncrossed m" and "\<And>t. t \<noteq> s \<Longrightarrow> orderBooks m' t = orderBooks m t"
    and "\<And>b'. orderBooks m' s = Some b' \<Longrightarrow> uncrossed b'"
  shows "all_uncrossed m'"
  unfolding all_uncrossed_def
proof (intro allI impI)
  fix t b
  assume b: "orderBooks m' t = Some b"
  show "uncrossed b"
  proof (cases "t = s")
    case True
    then show ?thesis
      using assms(3) b by simp
  next
    case False
    then show ?thesis
      using assms(1,2) b by (simp add: all_uncrossed_def)
  qed
qed

lemma step_add_book:
  assumes c: "consistent m" and none: "orderBooks m s0 = None"
    and m': "orders m' = orders m" "orderBooks m' = (orderBooks m)(s0 \<mapsto> NewOrderBook symb)"
  shows "consistent m'"
proof (rule wfI)
  fix t b
  assume "orderBooks m' t = Some b"
  then show "book_ok b"
    using wf_book [OF c, of t b] by (auto simp add: m' split: if_splits)
next
  have "book_lists m' t r = book_lists m t r" for t r
    using none by (simp add: book_lists_def m')
  then have "book_lists m' = book_lists m"
    by (simp add: fun_eq_iff)
  then show "reg_ok (orders m') (book_lists m')"
    using wf_reg [OF c] by (simp add: m')
qed

lemma step_drop_book:
  assumes c: "consistent m" and none: "\<And>k n. orders m k = Some n \<Longrightarrow> SymbolID (Order n) \<noteq> s0"
    and m': "orders m' = orders m" "orderBooks m' = (orderBooks m)(s0 := None)"
  shows "consistent m'"
proof (rule wfI)
  fix t b
  assume "orderBooks m' t = Some b"
  then show "book_ok b"
    using wf_book [OF c, of t b] by (auto simp add: m' split: if_splits)
next
  have "reg_ok (orders m) (book_lists m')"
  proof (rule reg_drop [OF wf_reg [OF c] none])
    fix t r
    show "book_lists m' t r = (if t = s0 then None else book_lists m t r)"
      by (simp add: book_lists_def m')
  qed
  then show "reg_ok (orders m') (book_lists m')"
    by (simp add: m')
qed

lemma AddSymbol_total:
  assumes "consistent m"
  shows "\<exists>e m'. AddSymbol m symb = Some (e, m') \<and> consistent m' \<and> matching m' = matching m \<and>
           orderBooks m' = orderBooks m \<and> orders m' = orders m"
proof (cases "symbols m (Symbol_ID symb) = None")
  case True
  let ?m' = "notify [OnAddSymbol symb] (m\<lparr>symbols := (symbols m)(Symbol_ID symb \<mapsto> symb)\<rparr>)"
  have "consistent ?m' = consistent m"
    by (rule wf_cong) simp_all
  then show ?thesis
    using assms True by (simp add: AddSymbol_def)
next
  case False
  then show ?thesis
    using assms by (auto simp add: AddSymbol_def)
qed

lemma AddOrderBook_total:
  assumes "consistent m"
  shows "\<exists>e m'. AddOrderBook m symb = Some (e, m') \<and> consistent m' \<and>
           matching m' = matching m \<and> orders m' = orders m \<and>
           (all_uncrossed m \<longrightarrow> all_uncrossed m')"
proof (cases "orderBooks m (Symbol_ID symb) = None")
  case True
  let ?m' = "notify [OnAddOrderBook (Symbol_ID symb)]
               (m\<lparr>orderBooks := (orderBooks m)(Symbol_ID symb \<mapsto> NewOrderBook symb)\<rparr>)"
  have c: "consistent ?m'"
    by (rule step_add_book [OF assms True]) simp_all
  have u: "all_uncrossed ?m'" if "all_uncrossed m"
    by (rule all_uncrossed_frame [OF that, of "Symbol_ID symb"]) auto
  show ?thesis
    using c u True by (simp add: AddOrderBook_def)
next
  case False
  then show ?thesis
    using assms by (auto simp add: AddOrderBook_def)
qed

lemma DeleteOrder_total:
  assumes c: "consistent m"
  shows "\<exists>e m'. DeleteOrder m k = Some (e, m') \<and> consistent m' \<and> matching m' = matching m \<and>
           symbols m' = symbols m \<and> orders m' = (orders m)(k := None) \<and>
           (\<forall>t. (orderBooks m' t = None) = (orderBooks m t = None)) \<and>
           (all_uncrossed m \<longrightarrow> all_uncrossed m') \<and>
           e = (if orders m k = None then ErrorOrderNotFound else ErrorOK)"
proof (cases "orders m k")
  case None
  then have "(orders m)(k := None) = orders m"
    by (simp add: fun_eq_iff)
  then show ?thesis
    using c None by (simp add: DeleteOrder_def)
next
  case (Some n)
  let ?s = "SymbolID (Order n)"
  obtain ob ol where ob: "orderBooks m ?s = Some ob" and ol: "ids_at ob (home n) = Some ol"
    using wf_node(3) [OF c Some] by blast
  have pres: "deref ob (home n) \<noteq> None"
    using ol by (auto simp add: ids_at_def)
  obtain es where ul: "updateLevel m ?s n UpdateDelete = Some (notify es m)"
    using updateLevel_total [OF ob wf_node(2) [OF c Some] pres] by blast
  obtain ob0 ob' n' where ob0: "orderBooks m ?s = Some ob0"
    and del: "OrderBook_DeleteOrder ob0 k n = Some (ob', n')"
    and shrink: "\<forall>r. ids_at ob' r \<noteq> None \<longrightarrow> ids_at ob0 r \<noteq> None"
    and wf': "\<And>m'. orders m' = (orders m)(k := None) \<Longrightarrow>
                orderBooks m' = (orderBooks m)(?s \<mapsto> ob') \<Longrightarrow> consistent m'"
    using step_delete [OF c Some] by blast
  have e: "ob0 = ob"
    using ob ob0 by simp
  let ?m' = "notify [OnDeleteOrder (Order n')]
               ((notify es m)\<lparr>orderBooks := (orderBooks (notify es m))(?s \<mapsto> ob'),
                   orders := (orders (notify es m))(k := None)\<rparr>)"
  have res: "DeleteOrder m k = Some (ErrorOK, ?m')"
    unfolding DeleteOrder_def using Some ul ob del [unfolded e] by (simp add: Let_def)
  have c': "consistent ?m'"
    by (rule wf') simp_all
  have u: "all_uncrossed ?m'" if a: "all_uncrossed m"
  proof (rule all_uncrossed_frame [OF a, of ?s])
    fix b'
    assume "orderBooks ?m' ?s = Some b'"
    then have "b' = ob'"
      by simp
    moreover have "uncrossed ob"
      using a ob by (simp add: all_uncrossed_def)
    ultimately show "uncrossed b'"
      using uncrossed_shrink shrink e by blast
  qed simp
  show ?thesis
    using res c' u Some ob by simp
qed

lemma delete_all_total:
  assumes "consistent m"
  shows "\<exists>m'. delete_all m ks = Some m' \<and> consistent m' \<and> matching m' = matching m \<and>
           symbols m' = symbols m \<and>
           orders m' = (\<lambda>k. if k \<in> set ks then None else orders m k) \<and>
           (\<forall>t. (orderBooks m' t = None) = (orderBooks m t = None)) \<and>
           (all_uncrossed m \<longrightarrow> all_uncrossed m')"
  using assms
proof (induction ks arbitrary: m)
  case Nil
  then show ?case
    by simp
next
  case (Cons k ks)
  obtain e m1 where d: "DeleteOrder m k = Some (e, m1)" and c1: "consistent m1"
    and f1: "matching m1 = matching m" "symbols m1 = symbols m"
      "orders m1 = (orders m)(k := None)"
      "\<forall>t. (orderBooks m1 t = None) = (orderBooks m t = None)"
      "all_uncrossed m \<longrightarrow> all_uncrossed m1"
    using DeleteOrder_total [OF Cons.prems, of k] by blast
  obtain m' where r: "delete_all m1 ks = Some m'" and c': "consistent m'"
    and f': "matching m' = matching m1" "symbols m' = symbols m1"
      "orders m' = (\<lambda>k. if k \<in> set ks then None else orders m1 k)"
      "\<forall>t. (orderBooks m' t = None) = (orderBooks m1 t = None)"
      "all_uncrossed m1 \<longrightarrow> all_uncrossed m'"
    using Cons.IH [OF c1] by blast
  have "orders m' = (\<lambda>j. if j \<in> set (k # ks) then None else orders m j)"
    by (auto simp add: f' f1 fun_eq_iff)
  then show ?case
    using d r c' f' f1 by simp
qed

lemma DeleteOrderBook_total:
  assumes c: "consistent m" and cover: "\<And>k. orders m k \<noteq> None \<Longrightarrow> k \<in> set ks"
  shows "\<exists>e m'. DeleteOrderBook ks m s = Some (e, m') \<and> consistent m' \<and>
           matching m' = matching m \<and> symbols m' = symbols m \<and>
           (all_uncrossed m \<longrightarrow> all_uncrossed m')"
proof (cases "orderBooks m s = None")
  case True
  then show ?thesis
    using c by (simp add: DeleteOrderBook_def)
next
  case False
  let ?del = "concat (map (\<lambda>k. case orders m k of
                                   None \<Rightarrow> []
                                 | Some n \<Rightarrow> if SymbolID (Order n) = s then [n] else []) ks)"
  let ?ids = "map (\<lambda>n. ID (Order n)) ?del"
  have del: "(n \<in> set ?del) = (\<exists>j \<in> set ks. orders m j = Some n \<and> SymbolID (Order n) = s)"
    for n
    by (auto split: option.splits if_splits) (metis option.simps(5) list.set_intros(1))
  have ids: "(k \<in> set ?ids) = (\<exists>n. orders m k = Some n \<and> SymbolID (Order n) = s)" for k
  proof
    assume "k \<in> set ?ids"
    then obtain n where "n \<in> set ?del" "k = ID (Order n)"
      by (auto simp only: set_map)
    then obtain j where "orders m j = Some n" "SymbolID (Order n) = s" "k = ID (Order n)"
      unfolding del by blast
    then show "\<exists>n. orders m k = Some n \<and> SymbolID (Order n) = s"
      using wf_node(1) [OF c, of j n] by auto
  next
    assume "\<exists>n. orders m k = Some n \<and> SymbolID (Order n) = s"
    then obtain n where n: "orders m k = Some n" "SymbolID (Order n) = s"
      by blast
    then have "k \<in> set ks" "ID (Order n) = k"
      using cover [of k] wf_node(1) [OF c n(1)] by simp_all
    then have "n \<in> set ?del" "ID (Order n) = k"
      unfolding del using n by blast+
    then show "k \<in> set ?ids"
      unfolding set_map by blast
  qed
  obtain m1 where r: "delete_all m ?ids = Some m1" and c1: "consistent m1"
    and f1: "matching m1 = matching m" "symbols m1 = symbols m"
      "orders m1 = (\<lambda>k. if k \<in> set ?ids then None else orders m k)"
      "all_uncrossed m \<longrightarrow> all_uncrossed m1"
    using delete_all_total [OF c, of ?ids] by blast
  let ?m' = "notify [OnDeleteOrderBook s] (m1\<lparr>orderBooks := (orderBooks m1)(s := None)\<rparr>)"
  have res: "DeleteOrderBook ks m s = Some (ErrorOK, ?m')"
    unfolding DeleteOrderBook_def using False r by (simp add: Let_def)
  have none: "SymbolID (Order n) \<noteq> s" if "orders m1 k = Some n" for k n
    using that ids [of k] unfolding f1(3) by (auto split: if_splits)
  have c': "consistent ?m'"
    by (rule step_drop_book [OF c1 none]) simp_all
  have u: "all_uncrossed ?m'" if "all_uncrossed m1"
    using that by (auto simp add: all_uncrossed_def split: if_splits)
  show ?thesis
    using res c' u f1 by simp
qed

lemma DeleteSymbol_total:
  assumes c: "consistent m" and cover: "\<And>k. orders m k \<noteq> None \<Longrightarrow> k \<in> set ks"
  shows "\<exists>e m'. DeleteSymbol ks m s = Some (e, m') \<and> consistent m' \<and>
           matching m' = matching m \<and> (all_uncrossed m \<longrightarrow> all_uncrossed m')"
proof (cases "symbols m s")
  case None
  then show ?thesis
    using c by (simp add: DeleteSymbol_def)
next
  case (Some symb)
  obtain e m1 where r: "DeleteOrderBook ks m s = Some (e, m1)" and c1: "consistent m1"
    and f1: "matching m1 = matching m" "all_uncrossed m \<longrightarrow> all_uncrossed m1"
    using DeleteOrderBook_total [OF c cover, of s] by blast
  let ?m1 = "if orderBooks m s \<noteq> None then m1 else m"
  let ?m' = "notify [OnDeleteSymbol symb] (?m1\<lparr>symbols := (symbols ?m1)(s := None)\<rparr>)"
  have res: "DeleteSymbol ks m s = Some (ErrorOK, ?m')"
    unfolding DeleteSymbol_def using Some r by (simp add: Let_def)
  have "consistent ?m' = consistent ?m1"
    by (rule wf_cong) simp_all
  moreover have "all_uncrossed ?m' = all_uncrossed ?m1"
    by (rule all_uncrossed_cong) simp
  ultimately show ?thesis
    using res c c1 f1 by (simp del: notify_fields split: if_splits) (auto simp add: notify_def)
qed

lemma add_pipeline:
  assumes c: "consistent m0" and ob: "orderBooks m0 s = Some ob" and new: "orders m0 k = None"
    and n: "ID (Order n) = k" "SymbolID (Order n) = s"
    and add: "OrderBook_AddOrder ob k n = (ob', n')"
    and m2: "orders m2 = (orders m0)(k \<mapsto> n')" "orderBooks m2 = (orderBooks m0)(s \<mapsto> ob')"
  shows "\<exists>m3 m4. updateLevel m2 s n' UpdateAdd = Some m3 \<and> run_match m3 s = Some m4 \<and>
           consistent m4 \<and> matching m4 = matching m2 \<and>
           (\<forall>t. t \<noteq> s \<longrightarrow> orderBooks m4 t = orderBooks m0 t) \<and>
           (\<exists>b'. orderBooks m4 s = Some b' \<and> (matching m2 \<longrightarrow> uncrossed b')) \<and>
           (\<not> matching m2 \<longrightarrow> orders m4 = orders m2) \<and>
           only_executed (orders m2) (orders m4)"
proof -
  have c2: "consistent m2"
    using step_insert [OF c ob new n add m2] .
  have bok: "book_ok ob"
    using wf_book [OF c ob] .
  note st = OrderBook_AddOrder_store [OF bok add]
  have "ids_at ob' (home n) \<noteq> None"
    using st(4) [of "home n"] by simp
  then have pres: "deref ob' (home n) \<noteq> None"
    by (simp add: ids_at_def)
  have ob2: "orderBooks m2 s = Some ob'"
    by (simp add: m2)
  obtain es where ul: "updateLevel m2 s n' UpdateAdd = Some (notify es m2)"
    using updateLevel_total [OF ob2 st(3) pres] by blast
  have c3: "consistent (notify es m2)"
    using c2 by simp
  have "orderBooks (notify es m2) s \<noteq> None"
    using ob2 by simp
  then obtain m4 where r: "run_match (notify es m2) s = Some m4" and c4: "consistent m4"
    and f4: "matching m4 = matching (notify es m2)"
      "\<forall>t. t \<noteq> s \<longrightarrow> orderBooks m4 t = orderBooks (notify es m2) t"
      "\<exists>b'. orderBooks m4 s = Some b' \<and> (matching (notify es m2) \<longrightarrow> uncrossed b')"
      "\<not> matching (notify es m2) \<longrightarrow> m4 = notify es m2"
      "only_executed (orders (notify es m2)) (orders m4)"
    using run_match_total [OF c3, of s] by blast
  have "\<not> matching m2 \<longrightarrow> orders m4 = orders m2"
    using f4(4) by auto
  then show ?thesis
    using ul r c4 f4(1,2,3,5) by (simp add: m2)
qed

lemma AddOrder_total:
  assumes c: "consistent m"
  shows "\<exists>e m'. AddOrder m x = Some (e, m') \<and> consistent m' \<and> matching m' = matching m \<and>
           (matching m \<longrightarrow> all_uncrossed m \<longrightarrow> all_uncrossed m')"
proof -
  consider "validateOrder x \<noteq> ErrorOK" | "validateOrder x = ErrorOK" "orders m (ID x) \<noteq> None"
    | "validateOrder x = ErrorOK" "orders m (ID x) = None" "orderBooks m (SymbolID x) = None"
    | ob where "validateOrder x = ErrorOK" "orders m (ID x) = None"
        "orderBooks m (SymbolID x) = Some ob"
    by (cases "orderBooks m (SymbolID x)") auto
  then show ?thesis
  proof cases
    case 1
    then show ?thesis
      using c by (simp add: AddOrder_def)
  next
    case 2
    then show ?thesis
      using c by (simp add: AddOrder_def)
  next
    case 3
    then show ?thesis
      using c by (simp add: AddOrder_def)
  next
    case 4
    let ?s = "SymbolID x"
    obtain ob1 n1 where add: "OrderBook_AddOrder ob (ID x) (NewOrderNode x) = (ob1, n1)"
      by (cases "OrderBook_AddOrder ob (ID x) (NewOrderNode x)")
    let ?m1 = "notify [OnAddOrder x]
                 (m\<lparr>orders := (orders m)(ID x \<mapsto> n1),
                    orderBooks := (orderBooks m)(?s \<mapsto> ob1)\<rparr>)"
    have nn: "ID (Order (NewOrderNode x)) = ID x" "SymbolID (Order (NewOrderNode x)) = ?s"
      by (simp_all add: NewOrderNode_def)
    obtain m3 m4 where ul: "updateLevel ?m1 ?s n1 UpdateAdd = Some m3"
      and r: "run_match m3 ?s = Some m4" and c4: "consistent m4"
      and f4: "matching m4 = matching ?m1" "\<forall>t. t \<noteq> ?s \<longrightarrow> orderBooks m4 t = orderBooks m t"
        "\<exists>b'. orderBooks m4 ?s = Some b' \<and> (matching ?m1 \<longrightarrow> uncrossed b')"
      using add_pipeline [OF c 4(3) 4(2) nn add, of ?m1] by auto
    have res: "AddOrder m x = Some (ErrorOK, m4)"
      unfolding AddOrder_def using 4 add ul r by (simp add: Let_def)
    have u: "all_uncrossed m4" if "matching m" "all_uncrossed m"
      by (rule all_uncrossed_frame [OF that(2), of ?s]) (use f4 that(1) in auto)
    show ?thesis
      using res c4 f4(1) u by simp
  qed
qed

lemma ReduceOrder_total:
  assumes c: "consistent m"
  shows "\<exists>e m'. ReduceOrder m k quantity = Some (e, m') \<and> consistent m' \<and>
           matching m' = matching m \<and> (all_uncrossed m \<longrightarrow> all_uncrossed m')"
proof -
  consider "orders m k = None" | n where "orders m k = Some n" "quantity = 0"
    | n where "orders m k = Some n" "quantity \<noteq> 0" "quantity \<ge> LeavesQuantity (Order n)"
    | n where "orders m k = Some n" "quantity \<noteq> 0" "\<not> quantity \<ge> LeavesQuantity (Order n)"
    by (cases "orders m k") auto
  then show ?thesis
  proof cases
    case 1
    then show ?thesis
      using c by (simp add: ReduceOrder_def)
  next
    case 2
    then show ?thesis
      using c by (simp add: ReduceOrder_def)
  next
    case 3
    then have "ReduceOrder m k quantity = DeleteOrder m k"
      by (simp add: ReduceOrder_def)
    then show ?thesis
      using DeleteOrder_total [OF c, of k] by auto
  next
    case 4
    let ?s = "SymbolID (Order n)"
    let ?n1 = "n\<lparr>Order := (Order n)\<lparr>LeavesQuantity := LeavesQuantity (Order n) - quantity\<rparr>\<rparr>"
    let ?hr = "HiddenQuantity (Order n) - HiddenQuantity (Order ?n1)"
    let ?vr = "VisibleQuantity (Order n) - VisibleQuantity (Order ?n1)"
    have n1: "ID (Order ?n1) = ID (Order n)" "SymbolID (Order ?n1) = SymbolID (Order n)"
      "home ?n1 = home n" "Level ?n1 = Level n"
      by simp_all
    obtain ob ob1 where ob: "orderBooks m ?s = Some ob"
      and red: "OrderBook_ReduceOrder ob ?n1 quantity ?hr ?vr = Some ob1"
      and ids1: "\<And>r. ids_at ob1 r = ids_at ob r"
      and wf1: "\<And>m'. orders m' = (orders m)(k \<mapsto> ?n1) \<Longrightarrow>
                  orderBooks m' = (orderBooks m)(?s \<mapsto> ob1) \<Longrightarrow> consistent m'"
      using step_reduce [OF c 4(1) n1, of quantity ?hr ?vr] by blast
    let ?m1 = "notify [OnUpdateOrder (Order ?n1)]
                 (m\<lparr>orders := (orders m)(k \<mapsto> ?n1),
                    orderBooks := (orderBooks m)(?s \<mapsto> ob1)\<rparr>)"
    have c1: "consistent ?m1"
      by (rule wf1) simp_all
    have lv1: "Level ?n1 = Some (home n)"
      using wf_node(2) [OF c 4(1)] by simp
    obtain ol where ol: "ids_at ob (home n) = Some ol"
      using wf_node(3) [OF c 4(1)] ob by auto
    have pres1: "deref ob1 (home n) \<noteq> None"
      using ids1 [of "home n"] ol by (auto simp add: ids_at_def)
    obtain es where ul: "updateLevel ?m1 ?s ?n1 UpdateUpdate = Some (notify es ?m1)"
      using updateLevel_total [of ?m1 ?s ob1 ?n1 "home n" UpdateUpdate] lv1 pres1 by auto
    have res: "ReduceOrder m k quantity = Some (ErrorOK, notify es ?m1)"
      unfolding ReduceOrder_def using 4 ob red ul by (simp add: Let_def)
    have u: "all_uncrossed (notify es ?m1)" if a: "all_uncrossed m"
    proof (rule all_uncrossed_frame [OF a, of ?s])
      fix b'
      assume "orderBooks (notify es ?m1) ?s = Some b'"
      then have "b' = ob1"
        by simp
      moreover have "uncrossed ob"
        using a ob by (simp add: all_uncrossed_def)
      ultimately show "uncrossed b'"
        using uncrossed_shrink [of ob ob1] ids1 by simp
    qed simp
    show ?thesis
      using res c1 u by simp
  qed
qed

lemma ExecuteOrderWithPrice_total:
  assumes c: "consistent m"
  shows "\<exists>e m'. ExecuteOrderWithPrice m k price quantity = Some (e, m') \<and> consistent m' \<and>
           matching m' = matching m \<and> (all_uncrossed m \<longrightarrow> all_uncrossed m')"
proof -
  consider "orders m k = None"
    | n where "orders m k = Some n" "quantity = 0 \<or> quantity > LeavesQuantity (Order n)"
    | n where "orders m k = Some n" "\<not> (quantity = 0 \<or> quantity > LeavesQuantity (Order n))"
    by (cases "orders m k") auto
  then show ?thesis
  proof cases
    case 1
    then show ?thesis
      using c by (simp add: ExecuteOrderWithPrice_def)
  next
    case 2
    then show ?thesis
      using c by (simp add: ExecuteOrderWithPrice_def)
  next
    case 3
    let ?s = "SymbolID (Order n)"
    obtain m' ob ob' where e: "executeOrder m k price quantity = Some m'"
      and c': "consistent m'" and f: "matching m' = matching m"
      and ob: "orderBooks m ?s = Some ob" "orderBooks m' = (orderBooks m)(?s \<mapsto> ob')"
      and shrink: "\<forall>r. ids_at ob' r \<noteq> None \<longrightarrow> ids_at ob r \<noteq> None"
      using executeOrder_step [OF c 3(1), of price quantity] by blast
    have res: "ExecuteOrderWithPrice m k price quantity = Some (ErrorOK, m')"
      unfolding ExecuteOrderWithPrice_def using 3 e by simp
    have u: "all_uncrossed m'" if a: "all_uncrossed m"
    proof (rule all_uncrossed_frame [OF a, of ?s])
      fix b'
      assume "orderBooks m' ?s = Some b'"
      then have "b' = ob'"
        by (simp add: ob)
      moreover have "uncrossed ob"
        using a ob by (simp add: all_uncrossed_def)
      ultimately show "uncrossed b'"
        using uncrossed_shrink [of ob ob'] shrink by simp
    qed (simp add: ob)
    show ?thesis
      using res c' f u by simp
  qed
qed

lemma ExecuteOrder_total:
  assumes c: "consistent m"
  shows "\<exists>e m'. ExecuteOrder m k quantity = Some (e, m') \<and> consistent m' \<and>
           matching m' = matching m \<and> (all_uncrossed m \<longrightarrow> all_uncrossed m')"
proof (cases "orders m k")
  case None
  then show ?thesis
    using c by (simp add: ExecuteOrder_def)
next
  case (Some n)
  then have "ExecuteOrder m k quantity = ExecuteOrderWithPrice m k (Price (Order n)) quantity"
    by (simp add: ExecuteOrder_def ExecuteOrderWithPrice_def)
  then show ?thesis
    using ExecuteOrderWithPrice_total [OF c, of k "Price (Order n)" quantity] by simp
qed

lemma Match_total:
  assumes c: "consistent m"
  shows "\<exists>e m'. Match m s = Some (e, m') \<and> consistent m' \<and> matching m' = matching m \<and>
           (all_uncrossed m \<longrightarrow> all_uncrossed m')"
proof (cases "orderBooks m s = None")
  case True
  then show ?thesis
    using c by (simp add: Match_def)
next
  case False
  obtain m' where r: "match s m = Some m'" and p: "match_post s m m'"
    using match_total [OF c False] by blast
  have res: "Match m s = Some (ErrorOK, m')"
    using False r by (simp add: Match_def)
  have u: "all_uncrossed m'" if a: "all_uncrossed m"
    by (rule all_uncrossed_frame [OF a, of s]) (use p in \<open>auto simp add: match_post_def\<close>)
  show ?thesis
    using res p u by (simp add: match_post_def)
qed

lemma delete_phase:
  assumes c: "consistent m" and n: "orders m k = Some n"
  shows "\<exists>es ob ob1 n1.
           updateLevel m (SymbolID (Order n)) n UpdateDelete = Some (notify es m) \<and>
           orderBooks m (SymbolID (Order n)) = Some ob \<and>
           OrderBook_DeleteOrder ob k n = Some (ob1, n1) \<and> Order n1 = Order n \<and>
           consistent (m\<lparr>orders := (orders m)(k := None),
                         orderBooks := (orderBooks m)(SymbolID (Order n) \<mapsto> ob1)\<rparr>)"
proof -
  let ?s = "SymbolID (Order n)"
  obtain ob ol where ob: "orderBooks m ?s = Some ob" and ol: "ids_at ob (home n) = Some ol"
    using wf_node(3) [OF c n] by blast
  have pres: "deref ob (home n) \<noteq> None"
    using ol by (auto simp add: ids_at_def)
  obtain es where ul: "updateLevel m ?s n UpdateDelete = Some (notify es m)"
    using updateLevel_total [OF ob wf_node(2) [OF c n] pres] by blast
  obtain ob0 ob1 n1 where ob0: "orderBooks m ?s = Some ob0"
    and del: "OrderBook_DeleteOrder ob0 k n = Some (ob1, n1)" and n1: "Order n1 = Order n"
    and wf': "\<And>m'. orders m' = (orders m)(k := None) \<Longrightarrow>
                orderBooks m' = (orderBooks m)(?s \<mapsto> ob1) \<Longrightarrow> consistent m'"
    using step_delete [OF c n] by blast
  have e: "ob0 = ob"
    using ob ob0 by simp
  have "consistent (m\<lparr>orders := (orders m)(k := None),
                      orderBooks := (orderBooks m)(?s \<mapsto> ob1)\<rparr>)"
    by (rule wf') simp_all
  then show ?thesis
    using ul ob del [unfolded e] n1 by blast
qed

lemma ModifyOrder_total:
  assumes c: "consistent m"
  shows "\<exists>m'. ModifyOrder m k newPrice newQuantity =
             Some (if orders m k = None then ErrorOrderNotFound
                   else if newQuantity = 0 then ErrorOrderQuantityInvalid else ErrorOK, m') \<and>
           consistent m' \<and> matching m' = matching m \<and>
           (matching m \<longrightarrow> all_uncrossed m \<longrightarrow> all_uncrossed m') \<and>
           (\<not> matching m \<longrightarrow> newQuantity \<noteq> 0 \<longrightarrow>
              map_option Order (orders m' k) =
                map_option (\<lambda>n. (Order n)\<lparr>Price := newPrice, Quantity := newQuantity,
                    LeavesQuantity := newQuantity, ExecutedQuantity := 0\<rparr>) (orders m k)) \<and>
           (\<forall>n n'. newQuantity \<noteq> 0 \<longrightarrow> orders m k = Some n \<longrightarrow> orders m' k = Some n' \<longrightarrow>
              Order n' = (Order n)\<lparr>Price := newPrice, Quantity := newQuantity,
                    LeavesQuantity := LeavesQuantity (Order n'),
                    ExecutedQuantity := ExecutedQuantity (Order n')\<rparr>)"
proof -
  consider "orders m k = None" | n where "orders m k = Some n" "newQuantity = 0"
    | n where "orders m k = Some n" "newQuantity \<noteq> 0"
    by (cases "orders m k") auto
  then show ?thesis
  proof cases
    case 1
    then show ?thesis
      using c by (simp add: ModifyOrder_def)
  next
    case 2
    then show ?thesis
      using c by (simp add: ModifyOrder_def)
  next
    case 3
    let ?s = "SymbolID (Order n)"
    obtain es ob ob1 n1 where ul: "updateLevel m ?s n UpdateDelete = Some (notify es m)"
      and ob: "orderBooks m ?s = Some ob"
      and del: "OrderBook_DeleteOrder ob k n = Some (ob1, n1)" and n1: "Order n1 = Order n"
      and c0: "consistent (m\<lparr>orders := (orders m)(k := None),
                             orderBooks := (orderBooks m)(?s \<mapsto> ob1)\<rparr>)"
      using delete_phase [OF c 3(1)] by blast
    let ?m0 = "m\<lparr>orders := (orders m)(k := None), orderBooks := (orderBooks m)(?s \<mapsto> ob1)\<rparr>"
    let ?x = "(Order n1)\<lparr>Price := newPrice, Quantity := newQuantity,
                          LeavesQuantity := newQuantity, ExecutedQuantity := 0\<rparr>"
    let ?n2 = "n1\<lparr>Order := ?x\<rparr>"
    obtain ob2 n3 where add: "OrderBook_AddOrder ob1 k ?n2 = (ob2, n3)"
      by (cases "OrderBook_AddOrder ob1 k ?n2")
    let ?m2 = "notify [OnUpdateOrder (Order n3)]
                 ((notify es m)\<lparr>orders := (orders (notify es m))(k \<mapsto> n3),
                     orderBooks := (orderBooks (notify es m))(?s \<mapsto> ob2)\<rparr>)"
    have n2: "ID (Order ?n2) = k" "SymbolID (Order ?n2) = ?s"
      using n1 wf_node(1) [OF c 3(1)] by simp_all
    have ob0: "orderBooks ?m0 ?s = Some ob1" and new: "orders ?m0 k = None"
      by simp_all
    have m2: "orders ?m2 = (orders ?m0)(k \<mapsto> n3)" "orderBooks ?m2 = (orderBooks ?m0)(?s \<mapsto> ob2)"
      by simp_all
    obtain m3 m4 where ul2: "updateLevel ?m2 ?s n3 UpdateAdd = Some m3"
      and r: "run_match m3 ?s = Some m4" and c4: "consistent m4"
      and f4: "matching m4 = matching ?m2" "\<forall>t. t \<noteq> ?s \<longrightarrow> orderBooks m4 t = orderBooks ?m0 t"
        "\<exists>b'. orderBooks m4 ?s = Some b' \<and> (matching ?m2 \<longrightarrow> uncrossed b')"
        "\<not> matching ?m2 \<longrightarrow> orders m4 = orders ?m2"
        "only_executed (orders ?m2) (orders m4)"
      using add_pipeline [OF c0 ob0 new n2 add m2] by blast
    have res: "ModifyOrder m k newPrice newQuantity = Some (ErrorOK, m4)"
      unfolding ModifyOrder_def using 3 ul ob del add ul2 r by (simp add: Let_def)
    have u: "all_uncrossed m4" if "matching m" "all_uncrossed m"
      by (rule all_uncrossed_frame [OF that(2), of ?s]) (use f4 that(1) in auto)
    have "Order n3 = ?x"
      using OrderBook_AddOrder_store(2) [OF wf_book [OF c0 ob0] add] by simp
    then have o: "\<not> matching m \<longrightarrow> map_option Order (orders m4 k) = Some ((Order n)
        \<lparr>Price := newPrice, Quantity := newQuantity,
           LeavesQuantity := newQuantity, ExecutedQuantity := 0\<rparr>)"
      using f4(4) n1 by simp
    have x: "Order n' = (Order n)\<lparr>Price := newPrice, Quantity := newQuantity,
                    LeavesQuantity := LeavesQuantity (Order n'),
                    ExecutedQuantity := ExecutedQuantity (Order n')\<rparr>"
      if o4: "orders m4 k = Some n'" for n'
    proof -
      define e where "e = ExecutedQuantity (Order n')"
      define l where "l = LeavesQuantity (Order n')"
      obtain n0 where n0: "orders ?m2 k = Some n0"
          "Order n' = (Order n0)\<lparr>ExecutedQuantity := e, LeavesQuantity := l\<rparr>"
        using f4(5) o4 unfolding only_executed_def e_def l_def by blast
      have "n0 = n3"
        using n0(1) by simp
      then have "Order n' = (Order n)\<lparr>Price := newPrice, Quantity := newQuantity,
                    LeavesQuantity := l, ExecutedQuantity := e\<rparr>"
        using n0(2) \<open>Order n3 = ?x\<close> n1 by simp
      then show ?thesis
        unfolding e_def l_def .
    qed
    show ?thesis
      using res c4 f4(1) u o 3 x by simp
  qed
qed

lemma MitigateOrder_total:
  assumes c: "consistent m"
  shows "\<exists>e m'. MitigateOrder m k newPrice newQuantity = Some (e, m') \<and>
           consistent m' \<and> matching m' = matching m \<and>
           (matching m \<longrightarrow> all_uncrossed m \<longrightarrow> all_uncrossed m')"
proof -
  consider "orders m k = None"
    | n where "orders m k = Some n" "newQuantity \<le> ExecutedQuantity (Order n)"
    | n where "orders m k = Some n" "\<not> newQuantity \<le> ExecutedQuantity (Order n)"
    by (cases "orders m k") auto
  then show ?thesis
  proof cases
    case 1
    then show ?thesis
      using c by (simp add: MitigateOrder_def)
  next
    case 2
    then have "MitigateOrder m k newPrice newQuantity = DeleteOrder m k"
      by (simp add: MitigateOrder_def)
    then show ?thesis
      using DeleteOrder_total [OF c, of k] by auto
  next
    case 3
    let ?s = "SymbolID (Order n)"
    obtain es ob ob1 n1 where ul: "updateLevel m ?s n UpdateDelete = Some (notify es m)"
      and ob: "orderBooks m ?s = Some ob"
      and del: "OrderBook_DeleteOrder ob k n = Some (ob1, n1)" and n1: "Order n1 = Order n"
      and c0: "consistent (m\<lparr>orders := (orders m)(k := None),
                             orderBooks := (orderBooks m)(?s \<mapsto> ob1)\<rparr>)"
      using delete_phase [OF c 3(1)] by blast
    let ?m0 = "m\<lparr>orders := (orders m)(k := None), orderBooks := (orderBooks m)(?s \<mapsto> ob1)\<rparr>"
    let ?x = "(Order n1)\<lparr>Price := newPrice, Quantity := newQuantity,
                          LeavesQuantity := newQuantity - ExecutedQuantity (Order n1)\<rparr>"
    let ?n2 = "n1\<lparr>Order := ?x\<rparr>"
    obtain ob2 n3 where add: "OrderBook_AddOrder ob1 k ?n2 = (ob2, n3)"
      by (cases "OrderBook_AddOrder ob1 k ?n2")
    let ?m2 = "notify [OnUpdateOrder (Order n3)]
                 ((notify es m)\<lparr>orders := (orders (notify es m))(k \<mapsto> n3),
                     orderBooks := (orderBooks (notify es m))(?s \<mapsto> ob2)\<rparr>)"
    have n2: "ID (Order ?n2) = k" "SymbolID (Order ?n2) = ?s"
      using n1 wf_node(1) [OF c 3(1)] by simp_all
    have ob0: "orderBooks ?m0 ?s = Some ob1" and new: "orders ?m0 k = None"
      by simp_all
    have m2: "orders ?m2 = (orders ?m0)(k \<mapsto> n3)" "orderBooks ?m2 = (orderBooks ?m0)(?s \<mapsto> ob2)"
      by simp_all
    obtain m3 m4 where ul2: "updateLevel ?m2 ?s n3 UpdateAdd = Some m3"
      and r: "run_match m3 ?s = Some m4" and c4: "consistent m4"
      and f4: "matching m4 = matching ?m2" "\<forall>t. t \<noteq> ?s \<longrightarrow> orderBooks m4 t = orderBooks ?m0 t"
        "\<exists>b'. orderBooks m4 ?s = Some b' \<and> (matching ?m2 \<longrightarrow> uncrossed b')"
      using add_pipeline [OF c0 ob0 new n2 add m2] by blast
    have res: "MitigateOrder m k newPrice newQuantity = Some (ErrorOK, m4)"
      unfolding MitigateOrder_def using 3 ul ob del add ul2 r by (simp add: Let_def)
    have u: "all_uncrossed m4" if "matching m" "all_uncrossed m"
      by (rule all_uncrossed_frame [OF that(2), of ?s]) (use f4 that(1) in auto)
    show ?thesis
      using res c4 f4(1) u by simp
  qed
qed

lemma ReplaceOrder_total:
  assumes c: "consistent m"
  shows "\<exists>e m'. ReplaceOrder m k newID newPrice newQuantity = Some (e, m') \<and>
           consistent m' \<and> matching m' = matching m \<and>
           (matching m \<longrightarrow> all_uncrossed m \<longrightarrow> all_uncrossed m')"
proof -
  consider "orders m k = None" | n where "orders m k = Some n" "newQuantity = 0"
    | n where "orders m k = Some n" "newQuantity \<noteq> 0" "orders m newID \<noteq> None"
    | n where "orders m k = Some n" "newQuantity \<noteq> 0" "orders m newID = None"
    by (cases "orders m k") auto
  then show ?thesis
  proof cases
    case 1
    then show ?thesis
      using c by (simp add: ReplaceOrder_def)
  next
    case 2
    then show ?thesis
      using c by (simp add: ReplaceOrder_def)
  next
    case 3
    then show ?thesis
      using c by (auto simp add: ReplaceOrder_def)
  next
    case 4
    let ?s = "SymbolID (Order n)"
    obtain es ob ob1 n1 where ul: "updateLevel m ?s n UpdateDelete = Some (notify es m)"
      and ob: "orderBooks m ?s = Some ob"
      and del: "OrderBook_DeleteOrder ob k n = Some (ob1, n1)" and n1: "Order n1 = Order n"
      and c0: "consistent (m\<lparr>orders := (orders m)(k := None),
                             orderBooks := (orderBooks m)(?s \<mapsto> ob1)\<rparr>)"
      using delete_phase [OF c 4(1)] by blast
    let ?m0 = "m\<lparr>orders := (orders m)(k := None), orderBooks := (orderBooks m)(?s \<mapsto> ob1)\<rparr>"
    let ?x = "\<lparr>ID = newID, SymbolID = SymbolID (Order n1), Type = Type (Order n1),
                     Side = Side (Order n1), Price = newPrice, StopPrice = StopPrice (Order n1),
                     Quantity = newQuantity, ExecutedQuantity = 0, LeavesQuantity = newQuantity,
                     TimeInForce = TimeInForce (Order n1),
                     MaxVisibleQuantity = MaxVisibleQuantity (Order n1),
                     Slippage = Slippage (Order n1),
                     TrailingDistance = TrailingDistance (Order n1),
                     TrailingStep = TrailingStep (Order n1)\<rparr>"
    obtain ob2 n3 where add: "OrderBook_AddOrder ob1 newID (NewOrderNode ?x) = (ob2, n3)"
      by (cases "OrderBook_AddOrder ob1 newID (NewOrderNode ?x)")
    let ?m2 = "notify [OnDeleteOrder (Order n1)]
                 ((notify es m)\<lparr>orders := (orders (notify es m))(k := None)\<rparr>)"
    let ?m3 = "notify [OnAddOrder ?x]
                 (?m2\<lparr>orders := (orders ?m2)(newID \<mapsto> n3),
                     orderBooks := (orderBooks ?m2)(?s \<mapsto> ob2)\<rparr>)"
    have n2: "ID (Order (NewOrderNode ?x)) = newID" "SymbolID (Order (NewOrderNode ?x)) = ?s"
      using n1 by (simp_all add: NewOrderNode_def)
    have ob0: "orderBooks ?m0 ?s = Some ob1" and new: "orders ?m0 newID = None"
      using 4(3) by simp_all
    have m3: "orders ?m3 = (orders ?m0)(newID \<mapsto> n3)"
      "orderBooks ?m3 = (orderBooks ?m0)(?s \<mapsto> ob2)"
      by simp_all
    obtain m4 m5 where ul2: "updateLevel ?m3 ?s n3 UpdateAdd = Some m4"
      and r: "run_match m4 ?s = Some m5" and c5: "consistent m5"
      and f5: "matching m5 = matching ?m3" "\<forall>t. t \<noteq> ?s \<longrightarrow> orderBooks m5 t = orderBooks ?m0 t"
        "\<exists>b'. orderBooks m5 ?s = Some b' \<and> (matching ?m3 \<longrightarrow> uncrossed b')"
      using add_pipeline [OF c0 ob0 new n2 add m3] by blast
    have res: "ReplaceOrder m k newID newPrice newQuantity = Some (ErrorOK, m5)"
      unfolding ReplaceOrder_def using 4 ul ob del add ul2 r by (simp add: Let_def)
    have u: "all_uncrossed m5" if "matching m" "all_uncrossed m"
      by (rule all_uncrossed_frame [OF that(2), of ?s]) (use f5 that(1) in auto)
    show ?thesis
      using res c5 f5(1) u by simp
  qed
qed

section \<open>The states the engine reaches\<close>

text \<open>
  One call of a public operation of the manager, whatever code it returns. The two
  operations that range over the registry take the order in which the range visits its keys.
\<close>

inductive operation :: "MarketManager \<Rightarrow> MarketManager \<Rightarrow> bool" where
  AddSymbol: "AddSymbol m symb = Some (code, m') \<Longrightarrow> operation m m'"
| DeleteSymbol:
    "set ks = dom (orders m) \<Longrightarrow> distinct ks \<Longrightarrow> DeleteSymbol ks m s = Some (code, m') \<Longrightarrow>
     operation m m'"
| AddOrderBook: "AddOrderBook m symb = Some (code, m') \<Longrightarrow> operation m m'"
| DeleteOrderBook:
    "set ks = dom (orders m) \<Longrightarrow> distinct ks \<Longrightarrow> DeleteOrderBook ks m s = Some (code, m') \<Longrightarrow>
     operation m m'"
| AddOrder: "AddOrder m x = Some (code, m') \<Longrightarrow> operation m m'"
| ReduceOrder: "ReduceOrder m k quantity = Some (code, m') \<Longrightarrow> operation m m'"
| ModifyOrder: "ModifyOrder m k newPrice newQuantity = Some (code, m') \<Longrightarrow> operation m m'"
| MitigateOrder: "MitigateOrder m k newPrice newQuantity = Some (code, m') \<Longrightarrow> operation m m'"
| ReplaceOrder:
    "ReplaceOrder m k newID newPrice newQuantity = Some (code, m') \<Longrightarrow> operation m m'"
| DeleteOrder: "DeleteOrder m k = Some (code, m') \<Longrightarrow> operation m m'"
| ExecuteOrder: "ExecuteOrder m k quantity = Some (code, m') \<Longrightarrow> operation m m'"
| ExecuteOrderWithPrice:
    "ExecuteOrderWithPrice m k price quantity = Some (code, m') \<Longrightarrow> operation m m'"
| Match: "Match m s = Some (code, m') \<Longrightarrow> operation m m'"

text \<open>The states of a manager, from \<^verbatim>\<open>NewMarketManager\<close> on.\<close>

inductive engine_state :: "MarketManager \<Rightarrow> bool" where
  new: "engine_state NewMarketManager"
| enable: "engine_state m \<Longrightarrow> engine_state (EnableMatching m)"
| disable: "engine_state m \<Longrightarrow> engine_state (DisableMatching m)"
| step: "engine_state m \<Longrightarrow> operation m m' \<Longrightarrow> engine_state m'"

text \<open>
  The states a manager goes through from \<open>m0\<close> on, under any sequence of operations in which
  matching is not disabled.
\<close>

inductive session :: "MarketManager \<Rightarrow> MarketManager \<Rightarrow> bool" for m0 where
  start: "session m0 m0"
| enable: "session m0 m \<Longrightarrow> session m0 (EnableMatching m)"
| step: "session m0 m \<Longrightarrow> operation m m' \<Longrightarrow> session m0 m'"

text \<open>
  A crossed book: the best bid and the best ask are both there and the price of the best bid
  is not below the price of the best ask.
\<close>

definition crossed :: "OrderBook \<Rightarrow> bool" where
  "crossed ob =
     (case Option.bind (bestBid ob) (deref ob) of
        None \<Rightarrow> False
      | Some (bl, bo) \<Rightarrow>
          (case Option.bind (bestAsk ob) (deref ob) of
             None \<Rightarrow> False
           | Some (al, ao) \<Rightarrow> \<not> Level_Price bl < Level_Price al))"

lemma operation_consistent:
  assumes "operation m m'" and c: "consistent m"
  shows "consistent m' \<and> matching m' = matching m \<and>
         (matching m \<longrightarrow> all_uncrossed m \<longrightarrow> all_uncrossed m')"
  using assms(1)
proof cases
  case (AddSymbol symb code)
  then show ?thesis
    using AddSymbol_total [OF c, of symb] by (auto simp add: all_uncrossed_def)
next
  case (DeleteSymbol ks s code)
  then have "\<And>k. orders m k \<noteq> None \<Longrightarrow> k \<in> set ks"
    by auto
  then show ?thesis
    using DeleteSymbol_total [OF c, of ks s] DeleteSymbol(3) by auto
next
  case (AddOrderBook symb code)
  then show ?thesis
    using AddOrderBook_total [OF c, of symb] by auto
next
  case (DeleteOrderBook ks s code)
  then have "\<And>k. orders m k \<noteq> None \<Longrightarrow> k \<in> set ks"
    by auto
  then show ?thesis
    using DeleteOrderBook_total [OF c, of ks s] DeleteOrderBook(3) by auto
next
  case (AddOrder x code)
  then show ?thesis
    using AddOrder_total [OF c, of x] by auto
next
  case (ReduceOrder k quantity code)
  then show ?thesis
    using ReduceOrder_total [OF c, of k quantity] by auto
next
  case (ModifyOrder k newPrice newQuantity code)
  then show ?thesis
    using ModifyOrder_total [OF c, of k newPrice newQuantity] by auto
next
  case (MitigateOrder k newPrice newQuantity code)
  then show ?thesis
    using MitigateOrder_total [OF c, of k newPrice newQuantity] by auto
next
  case (ReplaceOrder k newID newPrice newQuantity code)
  then show ?thesis
    using ReplaceOrder_total [OF c, of k newID newPrice newQuantity] by auto
next
  case (DeleteOrder k code)
  then show ?thesis
    using DeleteOrder_total [OF c, of k] by auto
next
  case (ExecuteOrder k quantity code)
  then show ?thesis
    using ExecuteOrder_total [OF c, of k quantity] by auto
next
  case (ExecuteOrderWithPrice k price quantity code)
  then show ?thesis
    using ExecuteOrderWithPrice_total [OF c, of k price quantity] by auto
next
  case (Match s code)
  then show ?thesis
    using Match_total [OF c, of s] by auto
qed

lemma engine_state_consistent: "engine_state m \<Longrightarrow> consistent m"
  by (induction rule: engine_state.induct) (simp_all add: operation_consistent)

lemma session_invariant:
  assumes "session m0 m" and "consistent m0" and "matching m0" and "all_uncrossed m0"
  shows "consistent m \<and> matching m \<and> all_uncrossed m"
  using assms(1)
proof (induction rule: session.induct)
  case start
  show ?case
    using assms(2,3,4) by simp
next
  case (enable m)
  then show ?case
    by (simp add: all_uncrossed_def) (simp add: EnableMatching_def)
next
  case (step m m')
  then show ?case
    using operation_consistent [OF step.hyps(2)] by simp
qed

lemma session_consistent: "session m0 m \<Longrightarrow> consistent m0 \<Longrightarrow> consistent m"
  by (induction rule: session.induct) (simp_all add: operation_consistent)

lemma session_engine_state: "session m0 m \<Longrightarrow> engine_state m0 \<Longrightarrow> engine_state m"
  by (induction rule: session.induct) (auto intro: engine_state.enable engine_state.step)

lemma not_crossed_uncrossed:
  assumes "book_ok ob" and "\<not> crossed ob"
  shows "uncrossed ob"
  unfolding uncrossed_iff [OF assms(1)]
proof (intro allI impI)
  fix b a
  assume b: "bestBid ob = Some b" and a: "bestAsk ob = Some a"
  obtain bl bo where db: "deref ob b = Some (bl, bo)"
    using best_of_present(2) [OF assms(1), of Bids b] b by auto
  obtain al ao where da: "deref ob a = Some (al, ao)"
    using best_of_present(2) [OF assms(1), of Asks a] a by auto
  have "Level_Price bl < Level_Price al"
    using assms(2) b a db da by (simp add: crossed_def)
  then show "snd b < snd a"
    using deref_price [OF db] deref_price [OF da] by simp
qed

lemma side_empty:
  assumes "book_ok ob"
  shows "(best_of ob i = None) = (root (tree_of ob i) = NilLevel)"
proof
  assume "best_of ob i = None"
  then have n: "\<And>q. level_at q (root (tree_of ob i)) = None"
    using best_of_None [OF assms, of i] by (simp add: deref_def)
  show "root (tree_of ob i) = NilLevel"
  proof (cases "root (tree_of ob i)")
    case (LevelNode lv ol l r b)
    then show ?thesis
      using n [of "Level_Price lv"] by simp
  qed simp
next
  assume e: "root (tree_of ob i) = NilLevel"
  show "best_of ob i = None"
  proof (cases "best_of ob i")
    case (Some r)
    then have "fst r = i" "deref ob r \<noteq> None"
      using best_of_present [OF assms Some] by simp_all
    then show ?thesis
      using e by (simp add: deref_def)
  qed simp
qed

section \<open>No resting cross\<close>

text \<open>The state after a call that returns: the calls of a scenario, one after the other.\<close>

definition after :: "(ErrorCode \<times> MarketManager) option \<Rightarrow> MarketManager" where
  "after r = snd (the r)"

lemma engine_state_AddOrderBook:
  assumes "engine_state m"
  shows "engine_state (after (AddOrderBook m symb))"
proof -
  have "consistent m"
    using engine_state_consistent [OF assms] .
  then obtain code m' where r: "AddOrderBook m symb = Some (code, m')"
    using AddOrderBook_total [of m symb] by blast
  then have "operation m m'"
    by (rule operation.AddOrderBook)
  then have "engine_state m'"
    using assms by (rule engine_state.step [rotated])
  then show ?thesis
    by (simp add: after_def r)
qed

lemma engine_state_AddOrder:
  assumes "engine_state m"
  shows "engine_state (after (AddOrder m x))"
proof -
  have "consistent m"
    using engine_state_consistent [OF assms] .
  then obtain code m' where r: "AddOrder m x = Some (code, m')"
    using AddOrder_total [of m x] by blast
  then have "operation m m'"
    by (rule operation.AddOrder)
  then have "engine_state m'"
    using assms by (rule engine_state.step [rotated])
  then show ?thesis
    by (simp add: after_def r)
qed

lemma session_AddOrderBook:
  assumes "consistent m0" and "session m0 m"
  shows "session m0 (after (AddOrderBook m symb))"
proof -
  have "consistent m"
    using session_consistent [OF assms(2,1)] .
  then obtain code m' where r: "AddOrderBook m symb = Some (code, m')"
    using AddOrderBook_total [of m symb] by blast
  then have "operation m m'"
    by (rule operation.AddOrderBook)
  then have "session m0 m'"
    using assms(2) by (rule session.step [rotated])
  then show ?thesis
    by (simp add: after_def r)
qed

lemma session_AddOrder:
  assumes "consistent m0" and "session m0 m"
  shows "session m0 (after (AddOrder m x))"
proof -
  have "consistent m"
    using session_consistent [OF assms(2,1)] .
  then obtain code m' where r: "AddOrder m x = Some (code, m')"
    using AddOrder_total [of m x] by blast
  then have "operation m m'"
    by (rule operation.AddOrder)
  then have "session m0 m'"
    using assms(2) by (rule session.step [rotated])
  then show ?thesis
    by (simp add: after_def r)
qed

text \<open>
  C3, as stated, fails. \<^verbatim>\<open>EnableMatching\<close> only sets the switch, and \<^verbatim>\<open>ReduceOrder\<close>,
  \<^verbatim>\<open>DeleteOrder\<close> and the two \<^verbatim>\<open>ExecuteOrder\<close>s never call the matching loop. With matching
  off a buy at 100 and a sell at 99 rest; matching is enabled; \<^verbatim>\<open>ReduceOrder(1, 1)\<close> then
  returns \<^verbatim>\<open>ErrorOK\<close> with matching on, and the book still has its best bid at 100 and its
  best ask at 99.
\<close>

definition crossed_then_enabled :: MarketManager where
  "crossed_then_enabled =
     EnableMatching
       (after (AddOrder
         (after (AddOrder
           (after (AddOrderBook NewMarketManager AAPL))
           (NewLimitOrder 1 1 OrderSideBuy 100 10)))
         (NewLimitOrder 2 1 OrderSideSell 99 10)))"

theorem resting_cross_survives_enabling:
  "engine_state crossed_then_enabled \<and>
   matching crossed_then_enabled \<and>
   map_option fst (ReduceOrder crossed_then_enabled 1 1) = Some ErrorOK \<and>
   matching (after (ReduceOrder crossed_then_enabled 1 1)) \<and>
   bestBid (the (orderBooks (after (ReduceOrder crossed_then_enabled 1 1)) 1)) =
     Some (Bids, 100) \<and>
   bestAsk (the (orderBooks (after (ReduceOrder crossed_then_enabled 1 1)) 1)) =
     Some (Asks, 99) \<and>
   crossed (the (orderBooks (after (ReduceOrder crossed_then_enabled 1 1)) 1))"
proof -
  have e: "engine_state crossed_then_enabled"
    unfolding crossed_then_enabled_def
    by (intro engine_state.enable engine_state_AddOrder engine_state_AddOrderBook
        engine_state.new)
  have "matching crossed_then_enabled"
    by code_simp
  moreover have "map_option fst (ReduceOrder crossed_then_enabled 1 1) = Some ErrorOK"
    by code_simp
  moreover have "matching (after (ReduceOrder crossed_then_enabled 1 1))"
    by code_simp
  moreover have
    "bestBid (the (orderBooks (after (ReduceOrder crossed_then_enabled 1 1)) 1)) =
       Some (Bids, 100)"
    by code_simp
  moreover have
    "bestAsk (the (orderBooks (after (ReduceOrder crossed_then_enabled 1 1)) 1)) =
       Some (Asks, 99)"
    by code_simp
  moreover have "crossed (the (orderBooks (after (ReduceOrder crossed_then_enabled 1 1)) 1))"
    by code_simp
  ultimately show ?thesis
    using e by simp
qed

text \<open>
  C3, amended: from a state of the engine in which matching is enabled and no book is
  crossed (a new manager on which matching is enabled, for one), after every sequence of
  operations in which matching is not disabled every book has its best bid and best ask
  pointers \<^verbatim>\<open>nil\<close> exactly when that side has no level, and when neither is \<^verbatim>\<open>nil\<close> both
  point to levels of the book and the price of the best bid is below the price of the best
  ask.
\<close>

theorem no_resting_cross_while_matching:
  assumes "engine_state m0" and "matching m0"
    and "\<forall>s ob. orderBooks m0 s = Some ob \<longrightarrow> \<not> crossed ob"
    and "session m0 m" and "orderBooks m s = Some ob"
  shows "(bestBid ob = None \<longleftrightarrow> root (bids ob) = NilLevel) \<and>
         (bestAsk ob = None \<longleftrightarrow> root (asks ob) = NilLevel) \<and>
         (\<forall>bid ask. bestBid ob = Some bid \<and> bestAsk ob = Some ask \<longrightarrow>
            (\<exists>bl bo al ao. deref ob bid = Some (bl, bo) \<and> deref ob ask = Some (al, ao) \<and>
               Level_Price bl < Level_Price al))"
proof -
  have c0: "consistent m0"
    using engine_state_consistent [OF assms(1)] .
  have u0: "all_uncrossed m0"
    unfolding all_uncrossed_def
    using not_crossed_uncrossed wf_book [OF c0] assms(3) by blast
  have inv: "consistent m" "all_uncrossed m"
    using session_invariant [OF assms(4) c0 assms(2) u0] by simp_all
  have bok: "book_ok ob"
    using wf_book [OF inv(1) assms(5)] .
  have u: "uncrossed ob"
    using inv(2) assms(5) by (simp add: all_uncrossed_def)
  have 1: "(bestBid ob = None) = (root (bids ob) = NilLevel)"
    using side_empty [OF bok, of Bids] by simp
  have 2: "(bestAsk ob = None) = (root (asks ob) = NilLevel)"
    using side_empty [OF bok, of Asks] by simp
  have 3: "\<exists>bl bo al ao. deref ob bid = Some (bl, bo) \<and> deref ob ask = Some (al, ao) \<and>
               Level_Price bl < Level_Price al"
    if b: "bestBid ob = Some bid" and a: "bestAsk ob = Some ask" for bid ask
  proof -
    obtain bl bo where db: "deref ob bid = Some (bl, bo)"
      using best_of_present(2) [OF bok, of Bids bid] b by auto
    obtain al ao where da: "deref ob ask = Some (al, ao)"
      using best_of_present(2) [OF bok, of Asks ask] a by auto
    have "snd bid < snd ask"
      using u a b by (simp add: uncrossed_iff [OF bok])
    then have "Level_Price bl < Level_Price al"
      using deref_price [OF db] deref_price [OF da] by simp
    then show ?thesis
      using db da by simp
  qed
  show ?thesis
    using 1 2 3 by blast
qed

definition two_sided_book :: MarketManager where
  "two_sided_book =
     after (AddOrder
       (after (AddOrder
         (after (AddOrder
           (after (AddOrderBook (EnableMatching NewMarketManager) AAPL))
           (NewLimitOrder 1 1 OrderSideBuy 100 10)))
         (NewLimitOrder 2 1 OrderSideSell 105 10)))
       (NewLimitOrder 3 1 OrderSideBuy 107 4))"

theorem no_resting_cross_while_matching_witness:
  "engine_state (EnableMatching NewMarketManager) \<and>
   matching (EnableMatching NewMarketManager) \<and>
   orderBooks (EnableMatching NewMarketManager) = Map.empty \<and>
   session (EnableMatching NewMarketManager) two_sided_book \<and>
   orderBooks two_sided_book 1 \<noteq> None \<and>
   bestBid (the (orderBooks two_sided_book 1)) = Some (Bids, 100) \<and>
   bestAsk (the (orderBooks two_sided_book 1)) = Some (Asks, 105) \<and>
   (\<exists>bl bo al ao.
      deref (the (orderBooks two_sided_book 1)) (Bids, 100) = Some (bl, bo) \<and>
      deref (the (orderBooks two_sided_book 1)) (Asks, 105) = Some (al, ao) \<and>
      Level_Price bl < Level_Price al)"
proof -
  have e: "engine_state (EnableMatching NewMarketManager)"
    by (intro engine_state.enable engine_state.new)
  have m: "matching (EnableMatching NewMarketManager)"
    by (simp add: EnableMatching_def)
  have u: "\<forall>s ob. orderBooks (EnableMatching NewMarketManager) s = Some ob \<longrightarrow> \<not> crossed ob"
    by (simp add: EnableMatching_def NewMarketManager_def)
  have s: "session (EnableMatching NewMarketManager) two_sided_book"
    unfolding two_sided_book_def
    by (intro session_AddOrder session_AddOrderBook session.start
        engine_state_consistent [OF e])
  have b: "orderBooks two_sided_book 1 \<noteq> None"
    by code_simp
  have bb: "bestBid (the (orderBooks two_sided_book 1)) = Some (Bids, 100)"
    by code_simp
  have ba: "bestAsk (the (orderBooks two_sided_book 1)) = Some (Asks, 105)"
    by code_simp
  have "orderBooks two_sided_book 1 = Some (the (orderBooks two_sided_book 1))"
    using b by simp
  moreover have "orderBooks (EnableMatching NewMarketManager) = Map.empty"
    by (simp add: EnableMatching_def NewMarketManager_def)
  ultimately show ?thesis
    using no_resting_cross_while_matching [OF e m u s] bb ba e m s b by simp
qed

section \<open>What \<^verbatim>\<open>ModifyOrder\<close> checks\<close>






end
